theory Spec2Isabelle
  imports Complex_Main "HOL-Library.Multiset"
begin

section \<open>on2iob: OntoNotes name annotations to IOB sentences\<close>

text \<open>
  A shallow embedding of \<^verbatim>\<open>on2iob.py\<close>. Python strings are lists of characters; a
  character stands for a code point below 256. A token-tag pair is a 2-tuple of strings, a
  sentence a list of pairs, and the IOB data a list of sentences. Every exception the
  source can raise is a value of \<open>error\<close>, and a function that can raise returns
  \<open>error + 'a\<close> with \<open>Inl\<close> for the exception.
\<close>

type_synonym token_tag = "string \<times> string"
type_synonym sentence = "token_tag list"
type_synonym iob = "sentence list"

datatype error =
    KeyError string
  | IndexError
  | AssertionError
  | ParseError
  | RuntimeError int int string

abbreviation SP :: char where "SP \<equiv> CHR '' ''"
abbreviation NL :: char where "NL \<equiv> CHR 0x0A"
abbreviation TAB :: char where "TAB \<equiv> CHR 0x09"

subsection \<open>String primitives of the Python library\<close>

text \<open>
  \<open>split_by P xs\<close> cuts \<open>xs\<close> at every element that satisfies \<open>P\<close>. It always returns
  at least one piece, and two adjacent separators enclose an empty piece, as
  \<^verbatim>\<open>str.split(sep)\<close> does for a one-character separator. An element that is no
  separator goes to the front of the first piece of the rest; the rest always has one,
  so the first branch of the case is never taken.
\<close>

fun split_by :: "('a \<Rightarrow> bool) \<Rightarrow> 'a list \<Rightarrow> 'a list list" where
  "split_by P [] = [[]]"
| "split_by P (x # xs) =
     (if P x then [] # split_by P xs
      else (case split_by P xs of
              [] \<Rightarrow> [[x]]
            | piece # pieces \<Rightarrow> (x # piece) # pieces))"

definition str_split :: "char \<Rightarrow> string \<Rightarrow> string list" where
  "str_split sep s = split_by (\<lambda>c. c = sep) s"

text \<open>\<^verbatim>\<open>s.strip(chars)\<close> for a one-character argument, and \<^verbatim>\<open>s.strip()\<close>.\<close>

definition strip_by :: "(char \<Rightarrow> bool) \<Rightarrow> string \<Rightarrow> string" where
  "strip_by P s = rev (dropWhile P (rev (dropWhile P s)))"

definition str_strip :: "char \<Rightarrow> string \<Rightarrow> string" where
  "str_strip ch s = strip_by (\<lambda>c. c = ch) s"

text \<open>The characters below 256 for which \<^verbatim>\<open>str.isspace\<close> holds.\<close>

definition isspace :: "char \<Rightarrow> bool" where
  "isspace c \<longleftrightarrow>
     (of_char c :: nat) \<in> set [9, 10, 11, 12, 13, 28, 29, 30, 31, 32, 133, 160]"

definition str_strip_ws :: "string \<Rightarrow> string" where
  "str_strip_ws s = strip_by isspace s"

text \<open>
  \<^verbatim>\<open>str.lower\<close> on code points below 256: the ASCII capitals and the Latin-1 capitals
  (0xC0 to 0xDE but for the multiplication sign 0xD7) move up by 32.
\<close>

definition char_lower :: "char \<Rightarrow> char" where
  "char_lower c =
     (let n = (of_char c :: nat)
      in if (65 \<le> n \<and> n \<le> 90) \<or> (192 \<le> n \<and> n \<le> 222 \<and> n \<noteq> 215)
         then char_of (n + 32) else c)"

definition lower :: "string \<Rightarrow> string" where
  "lower s = map char_lower s"

subsection \<open>The element tree\<close>

text \<open>
  An \<^verbatim>\<open>xml.etree.ElementTree.Element\<close>: its tag, its attribute dictionary, its text
  (\<open>None\<close> when absent), its children in document order and its tail.
\<close>

datatype et_node =
  Element string "(string \<times> string) list" "string option" "et_node list" "string option"

subsection \<open>The linearizer \<^verbatim>\<open>xml2iob\<close>\<close>

text \<open>The constants \<^verbatim>\<open>I, O, B = 'I', 'O', 'B'\<close>.\<close>

definition I_const :: string where "I_const = ''I''"
definition O_const :: string where "O_const = ''O''"
definition B_const :: string where "B_const = ''B''"

text \<open>
  The two mutations of the accumulator. \<^verbatim>\<open>data[-1].append(p)\<close> raises IndexError on an
  empty accumulator; \<^verbatim>\<open>data.append([])\<close> cannot fail.
\<close>

definition append_last :: "iob \<Rightarrow> token_tag \<Rightarrow> error + iob" where
  "append_last data p =
     (if data = [] then Inl IndexError else Inr (butlast data @ [last data @ [p]]))"

definition append_empty :: "iob \<Rightarrow> iob" where
  "append_empty data = data @ [[]]"

text \<open>
  The inner loop \<^verbatim>\<open>for word in line.split(' ')\<close>, with the loop variable
  \<^verbatim>\<open>tag_pos\<close> and the accumulator threaded through.
\<close>

fun tag_words :: "string list \<Rightarrow> string \<Rightarrow> string \<Rightarrow> iob \<Rightarrow> error + iob" where
  "tag_words [] tag_pos tag_type data = Inr data"
| "tag_words (word # ws) tag_pos tag_type data =
     (if word = [] then tag_words ws tag_pos tag_type data
      else
        (let tag = (if tag_type \<noteq> [] then tag_pos @ ''-'' @ tag_type else O_const)
         in case append_last data (word, tag) of
              Inl e \<Rightarrow> Inl e
            | Inr data' \<Rightarrow> tag_words ws I_const tag_type data'))"

text \<open>
  The outer loop \<^verbatim>\<open>for i, line in enumerate(lines)\<close>; \<open>i\<close> is the index of the line
  at the head of the list and \<open>nlines\<close> the length of the whole list. The test
  \<^verbatim>\<open>i < nlines - 1\<close> is on integers.
\<close>

fun tag_lines :: "nat \<Rightarrow> nat \<Rightarrow> string list \<Rightarrow> string \<Rightarrow> iob \<Rightarrow> error + iob" where
  "tag_lines i nlines [] tag_type data = Inr data"
| "tag_lines i nlines (line # ls) tag_type data =
     (case tag_words (str_split SP (str_strip SP line)) B_const tag_type data of
        Inl e \<Rightarrow> Inl e
      | Inr data' \<Rightarrow>
          tag_lines (Suc i) nlines ls tag_type
            (if int i < int nlines - 1 then append_empty data' else data'))"

definition tag_text :: "string \<Rightarrow> string \<Rightarrow> iob \<Rightarrow> error + iob" where
  "tag_text text tag_type data =
     (let lines = str_split NL text; nlines = length lines
      in tag_lines 0 nlines lines tag_type data)"

text \<open>\<^verbatim>\<open>et_node.attrib['TYPE']\<close>: a missing key raises KeyError.\<close>

definition attrib_get :: "(string \<times> string) list \<Rightarrow> string \<Rightarrow> error + string" where
  "attrib_get attrib k =
     (case map_of attrib k of None \<Rightarrow> Inl (KeyError k) | Some v \<Rightarrow> Inr v)"

text \<open>
  A text or tail that is \<open>None\<close> or the empty string is false in \<^verbatim>\<open>if et_node.text:\<close>
  and \<^verbatim>\<open>if et_node.tail:\<close>.
\<close>

fun xml2iob :: "et_node \<Rightarrow> iob \<Rightarrow> error + iob"
  and xml2iob_children :: "et_node list \<Rightarrow> iob \<Rightarrow> error + iob" where
  "xml2iob (Element tag attrib text children tail) data =
     (case (case text of
              None \<Rightarrow> Inr data
            | Some t \<Rightarrow>
                if t = [] then Inr data
                else (case (if tag = ''ENAMEX''
                            then (case attrib_get attrib ''TYPE'' of
                                    Inl e \<Rightarrow> Inl e | Inr v \<Rightarrow> Inr (lower v))
                            else Inr [])
                      of Inl e \<Rightarrow> Inl e
                       | Inr tag_type \<Rightarrow> tag_text t tag_type data))
      of Inl e \<Rightarrow> Inl e
       | Inr data1 \<Rightarrow>
           (case xml2iob_children children data1 of
              Inl e \<Rightarrow> Inl e
            | Inr data2 \<Rightarrow>
                (case tail of
                   None \<Rightarrow> Inr data2
                 | Some t \<Rightarrow> if t = [] then Inr data2 else tag_text t [] data2)))"
| "xml2iob_children [] data = Inr data"
| "xml2iob_children (et_child # rest) data =
     (case xml2iob et_child data of
        Inl e \<Rightarrow> Inl e
      | Inr data' \<Rightarrow> xml2iob_children rest data')"

subsection \<open>\<^verbatim>\<open>parse_iob_files\<close>\<close>

text \<open>
  The files are given as pairs of a name and the text read from it, and the XML parser
  \<^verbatim>\<open>ETree.fromstring\<close> is a parameter. The loop threads \<^verbatim>\<open>iob_data\<close>; the first
  exception ends it. Printing is left out.
\<close>

fun parse_iob_files_loop ::
  "(string \<Rightarrow> error + et_node) \<Rightarrow> (string \<times> string) list \<Rightarrow> iob \<Rightarrow> error + iob" where
  "parse_iob_files_loop fromstring [] iob_data = Inr iob_data"
| "parse_iob_files_loop fromstring ((filename, raw_data) # rest) iob_data =
     (case fromstring raw_data of
        Inl e \<Rightarrow> Inl e
      | Inr et_root \<Rightarrow>
          (case xml2iob et_root [[]] of
             Inl e \<Rightarrow> Inl e
           | Inr local_iob_data0 \<Rightarrow>
               (let local_iob_data = filter (\<lambda>sent. sent \<noteq> []) local_iob_data0;
                    nsent = int (length local_iob_data);
                    nraw_sent =
                      int (length (filter (\<lambda>line. str_strip_ws line \<noteq> [])
                                     (str_split NL raw_data))) - 2
                in if nsent \<noteq> nraw_sent
                   then Inl (RuntimeError nsent nraw_sent filename)
                   else parse_iob_files_loop fromstring rest (iob_data @ local_iob_data))))"

definition parse_iob_files ::
  "(string \<Rightarrow> error + et_node) \<Rightarrow> (string \<times> string) list \<Rightarrow> error + iob" where
  "parse_iob_files fromstring files = parse_iob_files_loop fromstring files []"

subsection \<open>\<^verbatim>\<open>write_iob\<close>\<close>

text \<open>
  The result is the text written to the file. \<^verbatim>\<open>' '.join(token_tag)\<close> joins the two
  components of the pair; \<^verbatim>\<open>assert sent\<close> raises on an empty sentence.
\<close>

definition join_pair :: "token_tag \<Rightarrow> string" where
  "join_pair token_tag = fst token_tag @ [SP] @ snd token_tag"

fun write_loop :: "nat \<Rightarrow> nat \<Rightarrow> iob \<Rightarrow> string \<Rightarrow> error + string" where
  "write_loop i nsent [] fh = Inr fh"
| "write_loop i nsent (sent # rest) fh =
     (if sent = [] then Inl AssertionError
      else
        (let fh1 = fh @ concat (map (\<lambda>token_tag. join_pair token_tag @ [NL]) sent);
             fh2 = (if int i < int nsent - 1 then fh1 @ [NL] else fh1)
         in write_loop (Suc i) nsent rest fh2))"

definition write_iob :: "iob \<Rightarrow> error + string" where
  "write_iob data = write_loop 0 (length data) data []"

subsection \<open>\<^verbatim>\<open>build_random_partitions\<close>\<close>

text \<open>
  The list objects live in a store, so that the in-place shuffle and the copy made
  before it are visible. A cell holds the value of one list of sentences; \<open>next_free\<close> is
  the first address never handed out. The sentences of a list are held by value: this
  function reorders lists of sentences and writes to no sentence.
\<close>

type_synonym addr = nat

record store =
  cells :: "addr \<Rightarrow> iob"
  next_free :: addr

text \<open>\<^verbatim>\<open>copy.deepcopy\<close> of a list of sentences: a new object with an equal value.\<close>

definition deepcopy :: "store \<Rightarrow> addr \<Rightarrow> store \<times> addr" where
  "deepcopy st a =
     (st\<lparr>cells := (cells st)(next_free st := cells st a),
         next_free := Suc (next_free st)\<rparr>,
      next_free st)"

text \<open>
  \<^verbatim>\<open>Random.shuffle\<close>: for \<open>i\<close> from \<open>len(x) - 1\<close> down to \<open>1\<close>, draw
  \<open>j = randbelow(i + 1)\<close> and swap \<open>x[i]\<close> with \<open>x[j]\<close>. The generator is a parameter: a
  state \<open>'g\<close> and a function \<open>randbelow\<close> that returns a draw and the next state. The
  library returns a draw below its argument; the model reduces the draw modulo the
  bound, which changes no such draw.
\<close>

fun shuffle_loop ::
  "('g \<Rightarrow> nat \<Rightarrow> nat \<times> 'g) \<Rightarrow> nat \<Rightarrow> 'g \<Rightarrow> 'a list \<Rightarrow> 'a list \<times> 'g" where
  "shuffle_loop randbelow 0 g x = (x, g)"
| "shuffle_loop randbelow (Suc k) g x =
     (let i = Suc k;
          (r, g') = randbelow g (i + 1);
          j = r mod (i + 1)
      in shuffle_loop randbelow k g' (x[i := x ! j, j := x ! i]))"

definition shuffle ::
  "('g \<Rightarrow> nat \<Rightarrow> nat \<times> 'g) \<Rightarrow> 'g \<Rightarrow> store \<Rightarrow> addr \<Rightarrow> store \<times> 'g" where
  "shuffle randbelow g st a =
     (let (x', g') = shuffle_loop randbelow (length (cells st a) - 1) g (cells st a)
      in (st\<lparr>cells := (cells st)(a := x')\<rparr>, g'))"

text \<open>
  \<^verbatim>\<open>int(x)\<close> truncates towards zero. The fractions are rationals and the product
  \<^verbatim>\<open>valid_frac * nsent\<close> is the exact one, where the source multiplies doubles. At
  the default 0.07 the two have the same integer part: the double nearest to 0.07 lies
  above 0.07 by less than \<open>10\<^sup>-\<^sup>1\<^sup>7\<close>. At other fractions the rounded product can
  fall on the other side of an integer (0.58 and 50 sentences give 28 in the source and
  29 here), so the sizes of the slices are those of the source at the default fractions
  only. The store is the same at every fraction.
\<close>

definition py_int :: "rat \<Rightarrow> int" where
  "py_int x = (if 0 \<le> x then \<lfloor>x\<rfloor> else \<lceil>x\<rceil>)"

text \<open>A slice \<^verbatim>\<open>xs[lo:hi]\<close>: a negative bound counts from the end, and both are clipped.\<close>

definition slice_index :: "nat \<Rightarrow> int \<Rightarrow> nat" where
  "slice_index n i = (if i < 0 then nat (max 0 (i + int n)) else min (nat i) n)"

definition py_slice :: "'a list \<Rightarrow> int \<Rightarrow> int \<Rightarrow> 'a list" where
  "py_slice xs lo hi =
     (let start = slice_index (length xs) lo; stop = slice_index (length xs) hi
      in take (stop - start) (drop start xs))"

text \<open>
  \<open>Random\<close> stands for \<^verbatim>\<open>random.Random(seed)\<close>. The result is the final store and the
  returned tuple \<^verbatim>\<open>(train_data, valid_data, test_data)\<close>.
\<close>

definition build_random_partitions ::
  "(int \<Rightarrow> 'g) \<Rightarrow> ('g \<Rightarrow> nat \<Rightarrow> nat \<times> 'g) \<Rightarrow> store \<Rightarrow> addr \<Rightarrow> rat \<Rightarrow> rat \<Rightarrow> int
     \<Rightarrow> store \<times> (iob \<times> iob \<times> iob)" where
  "build_random_partitions Random randbelow st iob_data valid_frac test_frac seed =
     (let rng = Random seed;
          (st1, iob_copy) = deepcopy st iob_data;
          (st2, rng') = shuffle randbelow rng st1 iob_copy;
          nsent = int (length (cells st2 iob_copy));
          valid_end = py_int (valid_frac * of_int nsent);
          test_end = valid_end + py_int (test_frac * of_int nsent);
          train_data = py_slice (cells st2 iob_copy) 0 valid_end;
          valid_data = py_slice (cells st2 iob_copy) valid_end test_end;
          test_data = py_slice (cells st2 iob_copy) test_end nsent
      in (st2, (train_data, valid_data, test_data)))"

text \<open>The call with the default arguments, as \<^verbatim>\<open>main\<close> makes it.\<close>

definition build_random_partitions_default ::
  "(int \<Rightarrow> 'g) \<Rightarrow> ('g \<Rightarrow> nat \<Rightarrow> nat \<times> 'g) \<Rightarrow> store \<Rightarrow> addr
     \<Rightarrow> store \<times> (iob \<times> iob \<times> iob)" where
  "build_random_partitions_default Random randbelow st iob_data =
     build_random_partitions Random randbelow st iob_data (7 / 100) (7 / 100) 42"

text \<open>The three names the tuple is bound to by the caller.\<close>

definition train_data :: "store \<times> (iob \<times> iob \<times> iob) \<Rightarrow> iob" where
  "train_data r = fst (snd r)"

definition valid_data :: "store \<times> (iob \<times> iob \<times> iob) \<Rightarrow> iob" where
  "valid_data r = fst (snd (snd r))"

definition test_data :: "store \<times> (iob \<times> iob \<times> iob) \<Rightarrow> iob" where
  "test_data r = snd (snd (snd r))"

text \<open>
  The last lines of \<^verbatim>\<open>main\<close>: the files written and the data written to each, in
  the order of the calls \<^verbatim>\<open>write_iob(validfile, train_data)\<close>,
  \<^verbatim>\<open>write_iob(testfile, valid_data)\<close> and \<^verbatim>\<open>write_iob(trainfile, test_data)\<close>.
\<close>

definition main_partition_writes ::
  "(int \<Rightarrow> 'g) \<Rightarrow> ('g \<Rightarrow> nat \<Rightarrow> nat \<times> 'g) \<Rightarrow> store \<Rightarrow> addr
     \<Rightarrow> string \<Rightarrow> string \<Rightarrow> string \<Rightarrow> (string \<times> iob) list" where
  "main_partition_writes Random randbelow st iob_data trainfile validfile testfile =
     (let r = build_random_partitions_default Random randbelow st iob_data
      in [(validfile, train_data r), (testfile, valid_data r), (trainfile, test_data r)])"

section \<open>Notions of the specification\<close>

text \<open>
  The non-empty pieces of a string between separators. The specification speaks of
  whitespace (\<open>isspace\<close>); the tokenizer cuts at the space and the newline only
  (\<open>is_sep\<close>).
\<close>

definition words_by :: "(char \<Rightarrow> bool) \<Rightarrow> string \<Rightarrow> string list" where
  "words_by P s = filter (\<lambda>w. w \<noteq> []) (split_by P s)"

definition is_sep :: "char \<Rightarrow> bool" where
  "is_sep c \<longleftrightarrow> c = SP \<or> c = NL"

text \<open>The text and tail segments of a tree in document order.\<close>

fun tree_segments :: "et_node \<Rightarrow> string list" where
  "tree_segments (Element tag attrib text children tail) =
     (case text of None \<Rightarrow> [] | Some t \<Rightarrow> [t])
     @ concat (map tree_segments children)
     @ (case tail of None \<Rightarrow> [] | Some t \<Rightarrow> [t])"

definition tree_words :: "(char \<Rightarrow> bool) \<Rightarrow> et_node \<Rightarrow> string list" where
  "tree_words P n = concat (map (words_by P) (tree_segments n))"

text \<open>
  The tags of the tokens of one line: the first token begins, the others are inside;
  without an entity type every token is outside.
\<close>

fun tag_seq :: "string \<Rightarrow> string list \<Rightarrow> sentence" where
  "tag_seq tag_type [] = []"
| "tag_seq tag_type (w # ws) =
     (w, if tag_type \<noteq> [] then ''B-'' @ tag_type else ''O'')
     # map (\<lambda>v. (v, if tag_type \<noteq> [] then ''I-'' @ tag_type else ''O'')) ws"

definition line_pairs :: "string \<Rightarrow> string \<Rightarrow> sentence" where
  "line_pairs tag_type line = tag_seq tag_type (words_by (\<lambda>c. c = SP) line)"

text \<open>
  The history of an accumulator: the mutations made since it was created, oldest
  first, and the state they lead to.
\<close>

datatype op = Tok token_tag | Split

fun exec_ops :: "op list \<Rightarrow> iob \<Rightarrow> error + iob" where
  "exec_ops [] data = Inr data"
| "exec_ops (Tok p # ops) data =
     (case append_last data p of Inl e \<Rightarrow> Inl e | Inr data' \<Rightarrow> exec_ops ops data')"
| "exec_ops (Split # ops) data = exec_ops ops (append_empty data)"

text \<open>
  The two counts the validator compares: the sentences left after the empty ones are
  filtered out, and the lines of the raw text that are not empty once stripped, less
  the offset 2.
\<close>

definition sentence_count :: "iob \<Rightarrow> int" where
  "sentence_count d = int (length (filter (\<lambda>sent. sent \<noteq> []) d))"

definition raw_sentence_count :: "string \<Rightarrow> int" where
  "raw_sentence_count raw_data =
     int (length (filter (\<lambda>line. str_strip_ws line \<noteq> []) (str_split NL raw_data))) - 2"

text \<open>All nodes of a tree, and the entity span that has text but no type.\<close>

fun nodes :: "et_node \<Rightarrow> et_node list" where
  "nodes (Element tag attrib text children tail) =
     Element tag attrib text children tail # concat (map nodes children)"

fun malformed_entity :: "et_node \<Rightarrow> bool" where
  "malformed_entity (Element tag attrib text children tail) \<longleftrightarrow>
     tag = ''ENAMEX''
     \<and> (case text of None \<Rightarrow> False | Some t \<Rightarrow> t \<noteq> [])
     \<and> map_of attrib ''TYPE'' = None"

text \<open>
  The file format, in the words of the specification: one token and its tag on a line
  with a single space between them, one blank line between two sentences, no blank line
  after the last sentence. Every line ends with a newline.
\<close>

fun iob_lines :: "iob \<Rightarrow> string list" where
  "iob_lines [] = []"
| "iob_lines [sent] = map join_pair sent"
| "iob_lines (sent # rest) = map join_pair sent @ [] # iob_lines rest"

definition unlines :: "string list \<Rightarrow> string" where
  "unlines ls = concat (map (\<lambda>l. l @ [NL]) ls)"

text \<open>
  Reading a written file back, in the words of the specification: the lines of the text
  are split at the blank lines, then each line at its first space.
\<close>

definition text_lines :: "string \<Rightarrow> string list" where
  "text_lines content =
     (let ls = str_split NL content in if last ls = [] then butlast ls else ls)"

definition split_first_space :: "string \<Rightarrow> token_tag" where
  "split_first_space line =
     (takeWhile (\<lambda>c. c \<noteq> SP) line, drop 1 (dropWhile (\<lambda>c. c \<noteq> SP) line))"

definition reparse_iob :: "string \<Rightarrow> iob" where
  "reparse_iob content =
     map (map split_first_space) (split_by (\<lambda>line. line = []) (text_lines content))"

section \<open>Properties of the tokenizer\<close>

subsection \<open>Splitting\<close>

lemma split_by_nonempty: "split_by P xs \<noteq> []"
  by (cases xs) (auto split: list.splits)

lemma split_by_Cons:
  "split_by P (x # xs) =
     (if P x then [] # split_by P xs
      else (x # hd (split_by P xs)) # tl (split_by P xs))"
  using split_by_nonempty [of P xs] by (cases "split_by P xs") auto

declare split_by.simps(2) [simp del]

lemma split_by_snoc_sep: "P c \<Longrightarrow> split_by P (xs @ [c]) = split_by P xs @ [[]]"
  by (induction xs) (auto simp: split_by_Cons split_by_nonempty)

lemma split_by_cong: "(\<And>c. c \<in> set xs \<Longrightarrow> P c = Q c) \<Longrightarrow> split_by P xs = split_by Q xs"
  by (induction xs) (auto simp: split_by_Cons)

lemma split_by_pieces: "l \<in> set (split_by Q xs) \<Longrightarrow> c \<in> set l \<Longrightarrow> \<not> Q c"
proof (induction xs arbitrary: l)
  case Nil
  then show ?case by simp
next
  case (Cons x xs)
  have ne: "split_by Q xs \<noteq> []" by (rule split_by_nonempty)
  show ?case
  proof (cases "Q x")
    case True
    with Cons show ?thesis by (auto simp: split_by_Cons)
  next
    case False
    with Cons.prems have "l = x # hd (split_by Q xs) \<or> l \<in> set (tl (split_by Q xs))"
      by (simp add: split_by_Cons)
    then show ?thesis
    proof
      assume l: "l = x # hd (split_by Q xs)"
      have "hd (split_by Q xs) \<in> set (split_by Q xs)" using ne by simp
      with Cons.IH Cons.prems(2) l False show ?thesis by auto
    next
      assume "l \<in> set (tl (split_by Q xs))"
      then have "l \<in> set (split_by Q xs)" using ne by (meson list.set_sel(2))
      with Cons.IH Cons.prems(2) show ?thesis by blast
    qed
  qed
qed

lemma split_by_refine:
  assumes "\<And>c. Q c \<Longrightarrow> P c"
  shows "split_by P xs = concat (map (split_by P) (split_by Q xs))"
proof (induction xs)
  case Nil
  show ?case by simp
next
  case (Cons x xs)
  obtain r rs where r: "split_by Q xs = r # rs"
    using split_by_nonempty [of Q xs] by (cases "split_by Q xs") auto
  obtain a as where a: "split_by P r = a # as"
    using split_by_nonempty [of P r] by (cases "split_by P r") auto
  from Cons r a have IH: "split_by P xs = (a # as) @ concat (map (split_by P) rs)"
    by simp
  show ?case
  proof (cases "Q x")
    case True
    then have "P x" by (rule assms)
    with True Cons show ?thesis by (simp add: split_by_Cons)
  next
    case False
    then show ?thesis using r a IH by (cases "P x") (simp_all add: split_by_Cons)
  qed
qed

lemma words_by_dropWhile: "words_by P (dropWhile P s) = words_by P s"
  by (induction s) (auto simp: words_by_def split_by_Cons)

lemma words_by_strip_by: "words_by P (strip_by P s) = words_by P s"
proof -
  have "words_by P (rev (dropWhile P (rev t))) = words_by P t" for t
  proof (induction t rule: rev_induct)
    case Nil
    show ?case by simp
  next
    case (snoc x xs)
    show ?case
    proof (cases "P x")
      case True
      with snoc show ?thesis by (simp add: words_by_def split_by_snoc_sep)
    next
      case False
      then show ?thesis by simp
    qed
  qed
  then show ?thesis by (simp add: strip_by_def words_by_dropWhile)
qed

lemma words_by_line_sep:
  assumes "l \<in> set (str_split NL seg)"
  shows "words_by (\<lambda>c. c = SP) l = words_by is_sep l"
proof -
  from assms have "l \<in> set (split_by (\<lambda>c. c = NL) seg)"
    by (simp only: str_split_def split_by.simps(2))
  then have "c \<in> set l \<Longrightarrow> c \<noteq> NL" for c
    by (rule split_by_pieces)
  then have "c \<in> set l \<Longrightarrow> (c = SP) = is_sep c" for c
    unfolding is_sep_def by blast
  then have "split_by (\<lambda>c. c = SP) l = split_by is_sep l"
    by (rule split_by_cong)
  then show ?thesis by (simp only: words_by_def)
qed

lemma words_by_lines:
  "concat (map (words_by (\<lambda>c. c = SP)) (str_split NL seg)) = words_by is_sep seg"
proof -
  have a: "map (words_by (\<lambda>c. c = SP)) (str_split NL seg)
      = map (words_by is_sep) (str_split NL seg)"
    by (rule map_cong [OF refl]) (rule words_by_line_sep)
  have "split_by is_sep seg
      = concat (map (split_by is_sep) (split_by (\<lambda>c. c = NL) seg))"
    by (rule split_by_refine) (simp add: is_sep_def)
  then have b: "words_by is_sep seg = concat (map (words_by is_sep) (str_split NL seg))"
    unfolding words_by_def str_split_def split_by.simps(2)
    by (metis (no_types, lifting) filter_concat map_map comp_def map_cong)
  show ?thesis by (simp only: a b)
qed

subsection \<open>The loops of \<^verbatim>\<open>tag_text\<close> on a non-empty accumulator\<close>

lemma append_last_snoc: "append_last (ds @ [s]) p = Inr (ds @ [s @ [p]])"
  by (simp add: append_last_def)

lemma tag_words_inside:
  "tag_words ws I_const tag_type (ds @ [s])
     = Inr (ds @ [s @ map (\<lambda>v. (v, if tag_type \<noteq> [] then ''I-'' @ tag_type else ''O''))
                        (filter (\<lambda>w. w \<noteq> []) ws)])"
  by (induction ws arbitrary: s) (auto simp: append_last_snoc I_const_def O_const_def)

lemma tag_words_begin:
  "tag_words ws B_const tag_type (ds @ [s])
     = Inr (ds @ [s @ tag_seq tag_type (filter (\<lambda>w. w \<noteq> []) ws)])"
  by (induction ws) (auto simp: append_last_snoc tag_words_inside B_const_def O_const_def)

lemma tag_line_snoc:
  "tag_words (str_split SP (str_strip SP line)) B_const tag_type (ds @ [s])
     = Inr (ds @ [s @ line_pairs tag_type line])"
  using words_by_strip_by [of "\<lambda>c. c = SP" line]
  by (simp add: tag_words_begin line_pairs_def words_by_def str_split_def split_by.simps(2) str_strip_def)

lemma tag_lines_snoc:
  "i + length ls = nlines \<Longrightarrow>
   tag_lines i nlines ls tag_type (ds @ [s])
     = Inr (case ls of [] \<Rightarrow> ds @ [s]
            | l # ls' \<Rightarrow> ds @ (s @ line_pairs tag_type l) # map (line_pairs tag_type) ls')"
proof (induction ls arbitrary: i ds s)
  case Nil
  show ?case by simp
next
  case (Cons l ls)
  show ?case
  proof (cases ls)
    case Nil
    with Cons.prems show ?thesis by (simp add: tag_line_snoc)
  next
    case (Cons l' ls')
    from Cons.prems Cons have lt: "int i < int nlines - 1" by simp
    from Cons.prems have "Suc i + length ls = nlines" by simp
    from Cons.IH [OF this, of "ds @ [s @ line_pairs tag_type l]" "[]"] lt Cons
    show ?thesis by (simp add: tag_line_snoc append_empty_def)
  qed
qed

lemma tag_text_snoc:
  "tag_text seg tag_type (ds @ [s])
     = Inr (ds @ (s @ line_pairs tag_type (hd (str_split NL seg)))
               # map (line_pairs tag_type) (tl (str_split NL seg)))"
proof -
  obtain l ls where l: "str_split NL seg = l # ls"
    using split_by_nonempty [of "\<lambda>c. c = NL" seg]
    by (cases "str_split NL seg") (auto simp: str_split_def split_by.simps(2))
  have "0 + length (l # ls) = length (l # ls)" by simp
  from tag_lines_snoc [OF this, of tag_type ds s] l
  show ?thesis by (simp add: tag_text_def Let_def)
qed

section \<open>Properties of the linearizer\<close>

subsection \<open>Tokens in document order\<close>

lemma map_fst_tag_seq: "map fst (tag_seq tag_type ws) = ws"
  by (cases ws) (simp_all add: comp_def)

lemma map_fst_line_pairs: "map fst (line_pairs tag_type line) = words_by (\<lambda>c. c = SP) line"
  by (simp add: line_pairs_def map_fst_tag_seq)

lemma map_fst_lines:
  "map fst (concat (map (line_pairs tag_type) (str_split NL seg))) = words_by is_sep seg"
proof -
  have "map fst (concat (map (line_pairs tag_type) ls))
      = concat (map (words_by (\<lambda>c. c = SP)) ls)" for ls
    by (induction ls) (simp_all add: map_fst_line_pairs)
  then show ?thesis by (simp only: words_by_lines)
qed

lemma tag_text_nonempty:
  assumes "data \<noteq> []"
  shows "\<exists>d'. tag_text seg tag_type data = Inr d' \<and> d' \<noteq> []
           \<and> concat d' = concat data @ concat (map (line_pairs tag_type) (str_split NL seg))"
proof -
  from assms obtain ds s where data: "data = ds @ [s]"
    by (cases data rule: rev_cases) auto
  obtain l ls where l: "str_split NL seg = l # ls"
    using split_by_nonempty [of "\<lambda>c. c = NL" seg]
    by (cases "str_split NL seg") (auto simp: str_split_def split_by.simps(2))
  show ?thesis unfolding data tag_text_snoc l by simp
qed

lemma tag_text_words:
  assumes "data \<noteq> []"
  shows "\<exists>d' ps. tag_text seg tag_type data = Inr d' \<and> d' \<noteq> []
           \<and> concat d' = concat data @ ps \<and> map fst ps = words_by is_sep seg"
  using tag_text_nonempty [OF assms, of seg tag_type] map_fst_lines [of tag_type seg]
  by metis

lemma tree_words_children:
  "concat (map (words_by P) (concat (map tree_segments cs))) = concat (map (tree_words P) cs)"
  by (induction cs) (simp_all add: tree_words_def)

lemma tree_words_Element:
  "tree_words P (Element tag attrib tx children tail)
     = concat (map (words_by P) (case tx of None \<Rightarrow> [] | Some t \<Rightarrow> [t]))
       @ concat (map (tree_words P) children)
       @ concat (map (words_by P) (case tail of None \<Rightarrow> [] | Some t \<Rightarrow> [t]))"
  using tree_words_children [of P children] by (simp add: tree_words_def)

lemma xml2iob_words_aux:
  "(data \<noteq> [] \<longrightarrow> xml2iob n data = Inr data' \<longrightarrow>
      data' \<noteq> [] \<and> (\<exists>ps. concat data' = concat data @ ps \<and> map fst ps = tree_words is_sep n))"
  "(data \<noteq> [] \<longrightarrow> xml2iob_children cs data = Inr data' \<longrightarrow>
      data' \<noteq> [] \<and> (\<exists>ps. concat data' = concat data @ ps
          \<and> map fst ps = concat (map (tree_words is_sep) cs)))"
proof (induction n data and cs data arbitrary: data' and data' rule: xml2iob_xml2iob_children.induct)
  case (1 tag attrib etext children tail data)
  show ?case
  proof (intro impI)
    assume ne: "data \<noteq> []" and run: "xml2iob (Element tag attrib etext children tail) data = Inr data'"
    define step1 where "step1 = (case etext of
              None \<Rightarrow> Inr data
            | Some t \<Rightarrow>
                if t = [] then Inr data
                else (case (if tag = ''ENAMEX''
                            then (case attrib_get attrib ''TYPE'' of
                                    Inl e \<Rightarrow> Inl e | Inr v \<Rightarrow> Inr (lower v))
                            else Inr [])
                      of Inl e \<Rightarrow> Inl e
                       | Inr tag_type \<Rightarrow> tag_text t tag_type data))"
    from run obtain data1 where s1: "step1 = Inr data1"
      by (cases step1) (simp_all add: step1_def)
    from run s1 obtain data2 where s2: "xml2iob_children children data1 = Inr data2"
      by (cases "xml2iob_children children data1") (simp_all add: step1_def)
    from run s1 s2 have s3: "(case tail of None \<Rightarrow> Inr data2
        | Some t \<Rightarrow> if t = [] then Inr data2 else tag_text t [] data2) = Inr data'"
      by (simp add: step1_def)
    have w1: "data1 \<noteq> [] \<and> (\<exists>ps. concat data1 = concat data @ ps
        \<and> map fst ps = concat (map (words_by is_sep) (case etext of None \<Rightarrow> [] | Some t \<Rightarrow> [t])))"
    proof (cases etext)
      case None
      with s1 ne show ?thesis by (simp add: step1_def)
    next
      case (Some t)
      show ?thesis
      proof (cases "t = []")
        case True
        with Some s1 ne show ?thesis by (simp add: step1_def words_by_def)
      next
        case False
        with Some s1 obtain tag_type where "tag_text t tag_type data = Inr data1"
          by (auto simp: step1_def split: if_splits sum.splits)
        with tag_text_words [OF ne, of t tag_type] Some show ?thesis by auto
      qed
    qed
    then have ne1: "data1 \<noteq> []" by simp
    from "1.IH" [OF s1 [unfolded step1_def]] ne1 s2
    have w2: "data2 \<noteq> [] \<and> (\<exists>ps. concat data2 = concat data1 @ ps
          \<and> map fst ps = concat (map (tree_words is_sep) children))"
      by blast
    then have ne2: "data2 \<noteq> []" by simp
    have w3: "data' \<noteq> [] \<and> (\<exists>ps. concat data' = concat data2 @ ps
        \<and> map fst ps = concat (map (words_by is_sep) (case tail of None \<Rightarrow> [] | Some t \<Rightarrow> [t])))"
    proof (cases tail)
      case None
      with s3 ne2 show ?thesis by simp
    next
      case (Some t)
      show ?thesis
      proof (cases "t = []")
        case True
        with Some s3 ne2 show ?thesis by (simp add: words_by_def)
      next
        case False
        with Some s3 have "tag_text t [] data2 = Inr data'" by simp
        with tag_text_words [OF ne2, of t "[]"] Some show ?thesis by auto
      qed
    qed
    from w1 obtain ps1 where p1: "concat data1 = concat data @ ps1"
      "map fst ps1 = concat (map (words_by is_sep) (case etext of None \<Rightarrow> [] | Some t \<Rightarrow> [t]))"
      by blast
    from w2 obtain ps2 where p2: "concat data2 = concat data1 @ ps2"
      "map fst ps2 = concat (map (tree_words is_sep) children)"
      by blast
    from w3 obtain ps3 where p3: "concat data' = concat data2 @ ps3"
      "map fst ps3 = concat (map (words_by is_sep) (case tail of None \<Rightarrow> [] | Some t \<Rightarrow> [t]))"
      by blast
    have "concat data' = concat data @ (ps1 @ ps2 @ ps3)"
      by (simp add: p1 p2 p3)
    moreover have "map fst (ps1 @ ps2 @ ps3) = tree_words is_sep (Element tag attrib etext children tail)"
      by (simp only: map_append p1 p2 p3 tree_words_Element)
    ultimately show "data' \<noteq> [] \<and> (\<exists>ps. concat data' = concat data @ ps
        \<and> map fst ps = tree_words is_sep (Element tag attrib etext children tail))"
      using w3 by blast
  qed
next
  case (2 data)
  show ?case by auto
next
  case (3 et_child rest data)
  show ?case
  proof (intro impI)
    assume ne: "data \<noteq> []" and run: "xml2iob_children (et_child # rest) data = Inr data'"
    from run obtain d1 where s1: "xml2iob et_child data = Inr d1"
      by (cases "xml2iob et_child data") simp_all
    with run have s2: "xml2iob_children rest d1 = Inr data'" by simp
    from "3.IH"(1) ne s1 obtain ps1 where p1: "d1 \<noteq> []" "concat d1 = concat data @ ps1"
      "map fst ps1 = tree_words is_sep et_child" by blast
    from "3.IH"(2) [OF s1] p1(1) s2 obtain ps2 where p2: "data' \<noteq> []"
      "concat data' = concat d1 @ ps2" "map fst ps2 = concat (map (tree_words is_sep) rest)"
      by blast
    have "concat data' = concat data @ (ps1 @ ps2)" by (simp add: p1 p2)
    moreover have "map fst (ps1 @ ps2) = concat (map (tree_words is_sep) (et_child # rest))"
      by (simp add: p1 p2)
    ultimately show "data' \<noteq> [] \<and> (\<exists>ps. concat data' = concat data @ ps
          \<and> map fst ps = concat (map (tree_words is_sep) (et_child # rest)))"
      using p2(1) by blast
  qed
qed

subsection \<open>Malformed entity spans\<close>

lemma nodes_Element_malformed:
  "(\<exists>m\<in>set (nodes (Element tag attrib tx children tail)). malformed_entity m)
     \<longleftrightarrow> malformed_entity (Element tag attrib tx children tail)
          \<or> (\<exists>c\<in>set children. \<exists>m\<in>set (nodes c). malformed_entity m)"
  by auto

lemma xml2iob_outcome:
  "data \<noteq> [] \<longrightarrow>
     (if (\<exists>m\<in>set (nodes n). malformed_entity m)
      then xml2iob n data = Inl (KeyError ''TYPE'')
      else (\<exists>d'. xml2iob n data = Inr d' \<and> d' \<noteq> []))"
  "data \<noteq> [] \<longrightarrow>
     (if (\<exists>c\<in>set cs. \<exists>m\<in>set (nodes c). malformed_entity m)
      then xml2iob_children cs data = Inl (KeyError ''TYPE'')
      else (\<exists>d'. xml2iob_children cs data = Inr d' \<and> d' \<noteq> []))"
proof (induction n data and cs data rule: xml2iob_xml2iob_children.induct)
  case (1 tag attrib etext children tail data)
  define step1 where "step1 = (case etext of
              None \<Rightarrow> Inr data
            | Some t \<Rightarrow>
                if t = [] then Inr data
                else (case (if tag = ''ENAMEX''
                            then (case attrib_get attrib ''TYPE'' of
                                    Inl e \<Rightarrow> Inl e | Inr v \<Rightarrow> Inr (lower v))
                            else Inr [])
                      of Inl e \<Rightarrow> Inl e
                       | Inr tag_type \<Rightarrow> tag_text t tag_type data))"
  let ?n = "Element tag attrib etext children tail"
  have unfold: "xml2iob ?n data =
     (case step1 of Inl e \<Rightarrow> Inl e
      | Inr data1 \<Rightarrow>
           (case xml2iob_children children data1 of
              Inl e \<Rightarrow> Inl e
            | Inr data2 \<Rightarrow>
                (case tail of
                   None \<Rightarrow> Inr data2
                 | Some t \<Rightarrow> if t = [] then Inr data2 else tag_text t [] data2)))"
    by (simp add: step1_def)
  show ?case
  proof (intro impI)
    assume ne: "data \<noteq> []"
    show "if (\<exists>m\<in>set (nodes ?n). malformed_entity m)
      then xml2iob ?n data = Inl (KeyError ''TYPE'')
      else (\<exists>d'. xml2iob ?n data = Inr d' \<and> d' \<noteq> [])"
    proof (cases "malformed_entity ?n")
      case True
      then have "step1 = Inl (KeyError ''TYPE'')"
        by (auto simp: step1_def attrib_get_def split: option.splits)
      with True show ?thesis
        unfolding nodes_Element_malformed unfold by simp
    next
      case False
      have "\<exists>data1. step1 = Inr data1 \<and> data1 \<noteq> []"
      proof (cases etext)
        case None
        with ne show ?thesis by (simp add: step1_def)
      next
        case (Some t)
        show ?thesis
        proof (cases "t = []")
          case True
          with Some ne show ?thesis by (simp add: step1_def)
        next
          case nonempty: False
          show ?thesis
          proof (cases "tag = ''ENAMEX''")
            case True
            with False Some nonempty obtain v where "map_of attrib ''TYPE'' = Some v"
              by auto
            with True Some nonempty tag_text_nonempty [OF ne, of t "lower v"]
            show ?thesis by (auto simp: step1_def attrib_get_def)
          next
            case False
            with Some nonempty tag_text_nonempty [OF ne, of t "[]"]
            show ?thesis by (auto simp: step1_def)
          qed
        qed
      qed
      then obtain data1 where s1: "step1 = Inr data1" and ne1: "data1 \<noteq> []"
        by blast
      note IH = "1.IH" [OF s1 [unfolded step1_def], rule_format, OF ne1]
      show ?thesis
      proof (cases "\<exists>c\<in>set children. \<exists>m\<in>set (nodes c). malformed_entity m")
        case True
        with IH have "xml2iob_children children data1 = Inl (KeyError ''TYPE'')"
          by simp
        with True s1 show ?thesis
          unfolding nodes_Element_malformed unfold by simp
      next
        case nochild: False
        with IH obtain data2 where s2: "xml2iob_children children data1 = Inr data2"
          and ne2: "data2 \<noteq> []"
          by auto
        have "\<exists>d'. (case tail of None \<Rightarrow> Inr data2
            | Some t \<Rightarrow> if t = [] then Inr data2 else tag_text t [] data2) = Inr d' \<and> d' \<noteq> []"
          using ne2 tag_text_nonempty [OF ne2, of _ "[]"]
          by (cases tail) auto
        then have ex: "\<exists>d'. xml2iob ?n data = Inr d' \<and> d' \<noteq> []"
          unfolding unfold using s1 s2 by auto
        have nomal: "\<not> (\<exists>m\<in>set (nodes ?n). malformed_entity m)"
          unfolding nodes_Element_malformed using False nochild by blast
        show ?thesis using nomal ex by (simp only: if_False)
      qed
    qed
  qed
next
  case (2 data)
  show ?case by simp
next
  case (3 et_child rest data)
  show ?case
  proof (intro impI)
    assume ne: "data \<noteq> []"
    note IH1 = "3.IH"(1) [rule_format, OF ne]
    show "if (\<exists>c\<in>set (et_child # rest). \<exists>m\<in>set (nodes c). malformed_entity m)
      then xml2iob_children (et_child # rest) data = Inl (KeyError ''TYPE'')
      else (\<exists>d'. xml2iob_children (et_child # rest) data = Inr d' \<and> d' \<noteq> [])"
    proof (cases "\<exists>m\<in>set (nodes et_child). malformed_entity m")
      case True
      with IH1 show ?thesis by simp
    next
      case False
      with IH1 obtain d1 where s1: "xml2iob et_child data = Inr d1" and ne1: "d1 \<noteq> []"
        by auto
      from "3.IH"(2) [OF s1, rule_format, OF ne1] False s1 show ?thesis by simp
    qed
  qed
qed

subsection \<open>Histories of the accumulator\<close>

lemma exec_ops_append:
  "exec_ops (p @ q) d = (case exec_ops p d of Inl e \<Rightarrow> Inl e | Inr d' \<Rightarrow> exec_ops q d')"
  by (induction p d rule: exec_ops.induct) (simp_all split: sum.splits)

lemma exec_ops_trans:
  "exec_ops p d = Inr d1 \<Longrightarrow> exec_ops q d1 = Inr d2 \<Longrightarrow> exec_ops (p @ q) d = Inr d2"
  by (simp add: exec_ops_append)

lemma exec_ops_invariant:
  "exec_ops p [[]] = Inr d \<Longrightarrow> d \<noteq> [] \<and> (last d = [] \<longleftrightarrow> p = [] \<or> last p = Split)"
proof (induction p arbitrary: d rule: rev_induct)
  case Nil
  then show ?case by auto
next
  case (snoc x p)
  from snoc.prems obtain d0 where d0: "exec_ops p [[]] = Inr d0" and step: "exec_ops [x] d0 = Inr d"
    by (auto simp: exec_ops_append split: sum.splits)
  from snoc.IH [OF d0] have ne: "d0 \<noteq> []" by simp
  show ?case
  proof (cases x)
    case (Tok tt)
    with step ne show ?thesis by (auto simp: append_last_def)
  next
    case Split
    with step show ?thesis by (auto simp: append_empty_def)
  qed
qed

lemma tag_words_ops:
  "tag_words ws tag_pos tag_type d = Inr d' \<Longrightarrow> \<exists>q. exec_ops q d = Inr d'"
proof (induction ws arbitrary: tag_pos d)
  case Nil
  then have "exec_ops [] d = Inr d'" by simp
  then show ?case by blast
next
  case (Cons word ws)
  show ?case
  proof (cases "word = []")
    case True
    with Cons show ?thesis by simp
  next
    case False
    define tag where "tag = (if tag_type \<noteq> [] then tag_pos @ ''-'' @ tag_type else O_const)"
    from Cons.prems False obtain d1 where a: "append_last d (word, tag) = Inr d1"
      and r: "tag_words ws I_const tag_type d1 = Inr d'"
      by (auto simp: tag_def Let_def split: sum.splits)
    from Cons.IH [OF r] obtain q where "exec_ops q d1 = Inr d'" by blast
    with a have "exec_ops (Tok (word, tag) # q) d = Inr d'" by simp
    then show ?thesis by blast
  qed
qed

lemma tag_lines_ops:
  "tag_lines i nlines ls tag_type d = Inr d' \<Longrightarrow> \<exists>q. exec_ops q d = Inr d'"
proof (induction ls arbitrary: i d)
  case Nil
  then have "exec_ops [] d = Inr d'" by simp
  then show ?case by blast
next
  case (Cons line ls)
  from Cons.prems obtain d1 where
    w: "tag_words (str_split SP (str_strip SP line)) B_const tag_type d = Inr d1"
    and r: "tag_lines (Suc i) nlines ls tag_type
              (if int i < int nlines - 1 then append_empty d1 else d1) = Inr d'"
    by (auto split: sum.splits)
  from tag_words_ops [OF w] obtain q1 where q1: "exec_ops q1 d = Inr d1" by blast
  from Cons.IH [OF r] obtain q2 where
    q2: "exec_ops q2 (if int i < int nlines - 1 then append_empty d1 else d1) = Inr d'"
    by blast
  show ?case
  proof (cases "int i < int nlines - 1")
    case True
    with q2 have "exec_ops (Split # q2) d1 = Inr d'" by simp
    from exec_ops_trans [OF q1 this] show ?thesis by blast
  next
    case False
    with q2 have "exec_ops q2 d1 = Inr d'" by simp
    from exec_ops_trans [OF q1 this] show ?thesis by blast
  qed
qed

lemma tag_text_ops:
  "tag_text seg tag_type d = Inr d' \<Longrightarrow> \<exists>q. exec_ops q d = Inr d'"
  unfolding tag_text_def Let_def by (rule tag_lines_ops)

lemma xml2iob_ops:
  "xml2iob n d = Inr d' \<longrightarrow> (\<exists>q. exec_ops q d = Inr d')"
  "xml2iob_children cs d = Inr d' \<longrightarrow> (\<exists>q. exec_ops q d = Inr d')"
proof (induction n d and cs d arbitrary: d' and d' rule: xml2iob_xml2iob_children.induct)
  case (1 tag attrib etext children tail data)
  show ?case
  proof
    assume run: "xml2iob (Element tag attrib etext children tail) data = Inr d'"
    define step1 where "step1 = (case etext of
              None \<Rightarrow> Inr data
            | Some t \<Rightarrow>
                if t = [] then Inr data
                else (case (if tag = ''ENAMEX''
                            then (case attrib_get attrib ''TYPE'' of
                                    Inl e \<Rightarrow> Inl e | Inr v \<Rightarrow> Inr (lower v))
                            else Inr [])
                      of Inl e \<Rightarrow> Inl e
                       | Inr tag_type \<Rightarrow> tag_text t tag_type data))"
    from run obtain data1 where s1: "step1 = Inr data1"
      by (cases step1) (simp_all add: step1_def)
    from run s1 obtain data2 where s2: "xml2iob_children children data1 = Inr data2"
      by (cases "xml2iob_children children data1") (simp_all add: step1_def)
    from run s1 s2 have s3: "(case tail of None \<Rightarrow> Inr data2
        | Some t \<Rightarrow> if t = [] then Inr data2 else tag_text t [] data2) = Inr d'"
      by (simp add: step1_def)
    have "\<exists>q. exec_ops q data = Inr data1"
    proof (cases "step1 = Inr data")
      case True
      with s1 have "exec_ops [] data = Inr data1" by simp
      then show ?thesis by blast
    next
      case False
      with s1 obtain t tag_type where "tag_text t tag_type data = Inr data1"
        by (auto simp: step1_def split: option.splits if_splits sum.splits)
      then show ?thesis by (rule tag_text_ops)
    qed
    then obtain q1 where q1: "exec_ops q1 data = Inr data1" by blast
    from "1.IH" [OF s1 [unfolded step1_def]] s2
    obtain q2 where q2: "exec_ops q2 data1 = Inr data2" by blast
    have "\<exists>q. exec_ops q data2 = Inr d'"
    proof (cases "tail = None \<or> tail = Some []")
      case True
      with s3 have "exec_ops [] data2 = Inr d'" by auto
      then show ?thesis by blast
    next
      case False
      with s3 obtain t where "tag_text t [] data2 = Inr d'"
        by (auto split: option.splits if_splits)
      then show ?thesis by (rule tag_text_ops)
    qed
    then obtain q3 where q3: "exec_ops q3 data2 = Inr d'" by blast
    from exec_ops_trans [OF exec_ops_trans [OF q1 q2] q3]
    show "\<exists>q. exec_ops q data = Inr d'" by blast
  qed
next
  case (2 data)
  show ?case
  proof
    assume "xml2iob_children [] data = Inr d'"
    then have "exec_ops [] data = Inr d'" by simp
    then show "\<exists>q. exec_ops q data = Inr d'" by blast
  qed
next
  case (3 et_child rest data)
  show ?case
  proof
    assume run: "xml2iob_children (et_child # rest) data = Inr d'"
    from run obtain d1 where s1: "xml2iob et_child data = Inr d1"
      by (cases "xml2iob et_child data") simp_all
    with run have s2: "xml2iob_children rest d1 = Inr d'" by simp
    from "3.IH"(1) s1 obtain q1 where q1: "exec_ops q1 data = Inr d1" by blast
    from "3.IH"(2) [OF s1] s2 obtain q2 where q2: "exec_ops q2 d1 = Inr d'" by blast
    from exec_ops_trans [OF q1 q2] show "\<exists>q. exec_ops q data = Inr d'" by blast
  qed
qed

subsection \<open>Concrete values\<close>

lemma lower_PERSON: "lower ''PERSON'' = ''person''"
  by code_simp

lemmas linearizer_eval =
  tag_text_def str_split_def split_by.simps(2) str_strip_def strip_by_def append_last_def append_empty_def
  attrib_get_def B_const_def I_const_def O_const_def lower_PERSON

lemma split_by_no_sep: "(\<And>c. c \<in> set xs \<Longrightarrow> \<not> P c) \<Longrightarrow> split_by P xs = [xs]"
  by (induction xs) (auto simp: split_by_Cons)

lemma line_pairs_entity:
  "tag_type \<noteq> [] \<Longrightarrow>
   line_pairs tag_type line
     = (case words_by (\<lambda>c. c = SP) line of
          [] \<Rightarrow> []
        | w # ws \<Rightarrow> (w, ''B-'' @ tag_type) # map (\<lambda>v. (v, ''I-'' @ tag_type)) ws)"
  by (cases "words_by (\<lambda>c. c = SP) line") (simp_all add: line_pairs_def)

lemma line_pairs_outside:
  "map snd (line_pairs [] line) = replicate (length (words_by (\<lambda>c. c = SP) line)) ''O''"
  by (cases "words_by (\<lambda>c. c = SP) line") (simp_all add: line_pairs_def comp_def map_replicate_const)

text \<open>
  The text of an entity span: the traversal of the node is the traversal of the node
  without its text, from the accumulator that holds the pairs of the text.
\<close>

lemma lower_empty: "lower v = [] \<longleftrightarrow> v = []"
  by (simp add: lower_def)

lemma xml2iob_entity_text:
  assumes "map_of attrib ''TYPE'' = Some v"
  shows "xml2iob (Element ''ENAMEX'' attrib (Some seg) children tail) (ds @ [s])
           = xml2iob (Element ''ENAMEX'' attrib None children tail)
               (ds @ (s @ line_pairs (lower v) (hd (str_split NL seg)))
                   # map (line_pairs (lower v)) (tl (str_split NL seg)))"
proof (cases "seg = []")
  case True
  then show ?thesis by (simp add: str_split_def line_pairs_def words_by_def)
next
  case False
  with assms show ?thesis by (simp add: attrib_get_def tag_text_snoc)
qed

text \<open>
  What the traversal emits. For every tree and every non-empty accumulator on which the
  traversal returns, the pairs it has appended are, in number and in order, the
  non-empty pieces of the text and tail segments of the tree in document order, cut at
  the space and the newline character and at no other character.
\<close>

lemma xml2iob_tokens_in_document_order:
  assumes "data \<noteq> []" and "xml2iob n data = Inr data'"
  shows "\<exists>ps. concat data' = concat data @ ps
           \<and> map fst ps = tree_words is_sep n
           \<and> length ps = length (tree_words is_sep n)"
  using xml2iob_words_aux(1) [of data n data'] assms by (metis length_map)

lemma xml2iob_tokens_in_document_order_example:
  "[[]] \<noteq> ([] :: iob)
   \<and> xml2iob (Element ''DOC'' [] (Some ''a b'')
         [Element ''ENAMEX'' [(''TYPE'', ''PERSON'')] (Some ''c'') [] (Some [SP, CHR ''d'', NL, CHR ''e''])]
         None) [[]]
       = Inr [[(''a'', ''O''), (''b'', ''O''), (''c'', ''B-person''), (''d'', ''O'')], [(''e'', ''O'')]]
   \<and> map fst [(''a'', ''O''), (''b'', ''O''), (''c'', ''B-person''), (''d'', ''O''), (''e'', ''O'')]
       = tree_words is_sep (Element ''DOC'' [] (Some ''a b'')
         [Element ''ENAMEX'' [(''TYPE'', ''PERSON'')] (Some ''c'') [] (Some [SP, CHR ''d'', NL, CHR ''e''])]
         None)"
proof -
  let ?n = "Element ''DOC'' [] (Some ''a b'')
         [Element ''ENAMEX'' [(''TYPE'', ''PERSON'')] (Some ''c'') [] (Some [SP, CHR ''d'', NL, CHR ''e''])]
         None"
  let ?d = "[[(''a'', ''O''), (''b'', ''O''), (''c'', ''B-person''), (''d'', ''O'')], [(''e'', ''O'')]]"
  have h1: "[[]] \<noteq> ([] :: iob)" by simp
  have h2: "xml2iob ?n [[]] = Inr ?d"
    by (simp add: linearizer_eval)
  from xml2iob_tokens_in_document_order [OF h1 h2]
  have "map fst (concat ?d) = tree_words is_sep ?n" by auto
  then have "map fst [(''a'', ''O''), (''b'', ''O''), (''c'', ''B-person''), (''d'', ''O''), (''e'', ''O'')]
      = tree_words is_sep ?n" by simp
  with h1 h2 show ?thesis by blast
qed

section \<open>The claims about the linearizer\<close>

text \<open>
  C2. The docstring of \<^verbatim>\<open>tag_text\<close> and its comments say that tokens are separated
  by whitespace, and the validator strips every whitespace character of a raw line, but
  the tokenizer cuts at the space and the newline only. A text that holds \<open>a\<close>, a tab
  and \<open>b\<close> has the two whitespace-delimited pieces \<open>a\<close> and \<open>b\<close>, and the traversal
  emits one pair, whose token holds the tab.
\<close>

theorem tab_is_not_a_token_boundary:
  "xml2iob (Element ''DOC'' [] (Some [CHR ''a'', TAB, CHR ''b'']) [] None) [[]]
     = Inr [[([CHR ''a'', TAB, CHR ''b''], ''O'')]]
   \<and> tree_words isspace (Element ''DOC'' [] (Some [CHR ''a'', TAB, CHR ''b'']) [] None)
     = [''a'', ''b'']
   \<and> length (concat [[([CHR ''a'', TAB, CHR ''b''], ''O'')]])
     \<noteq> length (tree_words isspace (Element ''DOC'' [] (Some [CHR ''a'', TAB, CHR ''b'']) [] None))"
  using tag_text_snoc [of "[CHR ''a'', TAB, CHR ''b'']" "[]" "[]" "[]"]
  by (simp add: str_split_def split_by.simps(2) line_pairs_def words_by_def tree_words_def isspace_def)

text \<open>
  C3, as amended. In the text segment of an entity span whose \<open>TYPE\<close> attribute is not
  empty, the tag position starts again at every line: of the tokens of one line exactly
  the first is emitted with the B-tag and every other one with the I-tag of the same
  entity type, the attribute in lower case. A segment without a newline is one line, so
  it has one B-tag, on its first token; a segment with newlines has one B-tag for each of
  its lines that has a token. The children and the tail of the span are processed after
  these pairs.
\<close>

theorem entity_line_begin_inside:
  assumes "map_of attrib ''TYPE'' = Some v" and "v \<noteq> []"
  shows "xml2iob (Element ''ENAMEX'' attrib (Some seg) children tail) (ds @ [s])
           = xml2iob (Element ''ENAMEX'' attrib None children tail)
               (ds
                @ (s @ (case words_by (\<lambda>c. c = SP) (hd (str_split NL seg)) of
                          [] \<Rightarrow> []
                        | w # ws \<Rightarrow> (w, ''B-'' @ lower v) # map (\<lambda>u. (u, ''I-'' @ lower v)) ws))
                # map (\<lambda>line. case words_by (\<lambda>c. c = SP) line of
                          [] \<Rightarrow> []
                        | w # ws \<Rightarrow> (w, ''B-'' @ lower v) # map (\<lambda>u. (u, ''I-'' @ lower v)) ws)
                    (tl (str_split NL seg)))
         \<and> (NL \<notin> set seg \<longrightarrow>
              xml2iob (Element ''ENAMEX'' attrib (Some seg) children tail) (ds @ [s])
                = xml2iob (Element ''ENAMEX'' attrib None children tail)
                    (ds @ [s @ (case words_by (\<lambda>c. c = SP) seg of
                          [] \<Rightarrow> []
                        | w # ws \<Rightarrow> (w, ''B-'' @ lower v) # map (\<lambda>u. (u, ''I-'' @ lower v)) ws)]))"
proof -
  from assms(2) have ne: "lower v \<noteq> []" by (simp add: lower_empty)
  have eq: "line_pairs (lower v) = (\<lambda>line. case words_by (\<lambda>c. c = SP) line of
                         [] \<Rightarrow> []
                       | w # ws \<Rightarrow> (w, ''B-'' @ lower v) # map (\<lambda>u. (u, ''I-'' @ lower v)) ws)"
    using line_pairs_entity [OF ne] by blast
  have one: "str_split NL seg = [seg]" if "NL \<notin> set seg"
    unfolding str_split_def using that by (intro split_by_no_sep) auto
  show ?thesis
    using xml2iob_entity_text [OF assms(1), of seg children tail ds s] one unfolding eq by simp
qed

theorem entity_line_begin_inside_witness:
  "map_of [(''TYPE'', ''PERSON'')] ''TYPE'' = Some ''PERSON''
   \<and> ''PERSON'' \<noteq> []
   \<and> xml2iob (Element ''ENAMEX'' [(''TYPE'', ''PERSON'')]
                (Some [CHR ''a'', SP, CHR ''b'', NL, CHR ''c'', SP, CHR ''d'']) [] None) ([] @ [[]])
       = Inr [[(''a'', ''B-person''), (''b'', ''I-person'')],
              [(''c'', ''B-person''), (''d'', ''I-person'')]]
   \<and> NL \<notin> set ''John Smith''
   \<and> xml2iob (Element ''ENAMEX'' [(''TYPE'', ''PERSON'')] (Some ''John Smith'') [] None) ([] @ [[]])
       = Inr [[(''John'', ''B-person''), (''Smith'', ''I-person'')]]"
proof -
  have h1: "map_of [(''TYPE'', ''PERSON'')] ''TYPE'' = Some ''PERSON''" by simp
  have h2: "''PERSON'' \<noteq> []" by simp
  have n: "NL \<notin> set ''John Smith''" by simp
  from entity_line_begin_inside [OF h1 h2,
      of "[CHR ''a'', SP, CHR ''b'', NL, CHR ''c'', SP, CHR ''d'']" "[]" None "[]" "[]"]
  have a: "xml2iob (Element ''ENAMEX'' [(''TYPE'', ''PERSON'')]
                (Some [CHR ''a'', SP, CHR ''b'', NL, CHR ''c'', SP, CHR ''d'']) [] None) ([] @ [[]])
       = Inr [[(''a'', ''B-person''), (''b'', ''I-person'')],
              [(''c'', ''B-person''), (''d'', ''I-person'')]]"
    by (simp add: str_split_def split_by.simps(2) words_by_def lower_PERSON)
  from entity_line_begin_inside [OF h1 h2, of "''John Smith''" "[]" None "[]" "[]"] n
  have b: "xml2iob (Element ''ENAMEX'' [(''TYPE'', ''PERSON'')] (Some ''John Smith'') [] None) ([] @ [[]])
       = Inr [[(''John'', ''B-person''), (''Smith'', ''I-person'')]]"
    by (simp add: str_split_def split_by.simps(2) words_by_def lower_PERSON)
  from h1 h2 n a b show ?thesis by blast
qed

theorem entity_segment_two_begin_tags_counterexample:
  "xml2iob (Element ''ENAMEX'' [(''TYPE'', ''PERSON'')] (Some [CHR ''a'', NL, CHR ''b'']) [] None) [[]]
     = Inr [[(''a'', ''B-person'')], [(''b'', ''B-person'')]]
   \<and> snd (concat [[(''a'', ''B-person'')], [(''b'', ''B-person'')]] ! 1) \<noteq> ''I-person''"
  using tag_text_snoc [of "[CHR ''a'', NL, CHR ''b'']" "''person''" "[]" "[]"]
  by (simp add: str_split_def split_by.simps(2) line_pairs_def words_by_def attrib_get_def lower_PERSON)

text \<open>
  An entity span whose \<open>TYPE\<close> attribute is the empty string has the empty tag type,
  and each of its tokens is tagged \<open>O\<close>.
\<close>

lemma entity_with_empty_type_is_outside:
  "xml2iob (Element ''ENAMEX'' [(''TYPE'', [])] (Some ''a b'') [] None) [[]]
     = Inr [[(''a'', ''O''), (''b'', ''O'')]]"
  by (simp add: linearizer_eval lower_def)

text \<open>
  C5, as amended. At every point during and after the traversal of a document, that is
  in every state the two mutations lead to from the initial \<open>[[]]\<close>, the accumulator is
  non-empty and a token is appended to its last element and to no other. The last
  element is empty exactly when no mutation has been made yet or the latest mutation
  was a sentence split: before the first token of the document, and again after every
  newline until the next token. Each loop of the traversal and the traversal itself
  continue the history of the state they start from, so their states are among these.
\<close>

theorem accumulator_invariant:
  assumes "exec_ops p [[]] = Inr d"
  shows "d \<noteq> []
         \<and> append_last d tt = Inr (butlast d @ [last d @ [tt]])
         \<and> (last d = [] \<longleftrightarrow> p = [] \<or> last p = Split)
         \<and> (\<forall>ws tag_pos tag_type d'. tag_words ws tag_pos tag_type d = Inr d'
               \<longrightarrow> (\<exists>q. exec_ops (p @ q) [[]] = Inr d'))
         \<and> (\<forall>i nlines ls tag_type d'. tag_lines i nlines ls tag_type d = Inr d'
               \<longrightarrow> (\<exists>q. exec_ops (p @ q) [[]] = Inr d'))
         \<and> (\<forall>seg tag_type d'. tag_text seg tag_type d = Inr d'
               \<longrightarrow> (\<exists>q. exec_ops (p @ q) [[]] = Inr d'))
         \<and> (\<forall>n d'. xml2iob n d = Inr d' \<longrightarrow> (\<exists>q. exec_ops (p @ q) [[]] = Inr d'))"
proof -
  from exec_ops_invariant [OF assms]
  have ne: "d \<noteq> []" and e: "last d = [] \<longleftrightarrow> p = [] \<or> last p = Split"
    by simp_all
  have a: "append_last d tt = Inr (butlast d @ [last d @ [tt]])"
    using ne by (simp add: append_last_def)
  have w: "\<exists>q. exec_ops (p @ q) [[]] = Inr d'" if "tag_words ws tag_pos tag_type d = Inr d'"
    for ws tag_pos tag_type d'
    using tag_words_ops [OF that] exec_ops_trans [OF assms] by blast
  have l: "\<exists>q. exec_ops (p @ q) [[]] = Inr d'" if "tag_lines i nlines ls tag_type d = Inr d'"
    for i nlines ls tag_type d'
    using tag_lines_ops [OF that] exec_ops_trans [OF assms] by blast
  have t: "\<exists>q. exec_ops (p @ q) [[]] = Inr d'" if "tag_text seg tag_type d = Inr d'"
    for seg tag_type d'
    using tag_text_ops [OF that] exec_ops_trans [OF assms] by blast
  have x: "\<exists>q. exec_ops (p @ q) [[]] = Inr d'" if "xml2iob n d = Inr d'" for n d'
    using xml2iob_ops(1) [of n d d'] that exec_ops_trans [OF assms] by blast
  from ne a e w l t x show ?thesis by blast
qed

theorem accumulator_invariant_witness:
  "exec_ops [Tok (''a'', ''O''), Split] [[]] = Inr [[(''a'', ''O'')], []]
   \<and> [[(''a'', ''O'')], []] \<noteq> ([] :: iob)
   \<and> append_last [[(''a'', ''O'')], []] (''b'', ''O'') = Inr [[(''a'', ''O'')], [(''b'', ''O'')]]
   \<and> last [[(''a'', ''O'')], []] = ([] :: sentence)
   \<and> last [Tok (''a'', ''O''), Split] = Split"
proof -
  have h: "exec_ops [Tok (''a'', ''O''), Split] [[]] = Inr [[(''a'', ''O'')], []]"
    by (simp add: append_last_def append_empty_def)
  from accumulator_invariant [OF h, of "(''b'', ''O'')"] h show ?thesis by simp
qed

theorem empty_last_after_token_counterexample:
  "xml2iob (Element ''DOC'' [] (Some [CHR ''a'', NL]) [] None) [[]]
     = Inr [[(''a'', ''O'')], []]
   \<and> last [[(''a'', ''O'')], []] = ([] :: sentence)
   \<and> concat [[(''a'', ''O'')], []] \<noteq> ([] :: sentence)"
  by (simp add: linearizer_eval)

text \<open>
  C6. The entity span with type \<open>PERSON\<close>, text \<open>John Smith\<close> and tail \<open>works here\<close>
  (after a space): the text gives \<open>John\<close> with \<open>B-person\<close> and \<open>Smith\<close> with
  \<open>I-person\<close>, the type in lower case; the tail gives \<open>works\<close> and \<open>here\<close> with
  \<open>O\<close>, appended to the same open sentence. The tail of any node, an entity span or
  not, is tagged with the empty type, so each of its tokens has the tag \<open>O\<close>.
\<close>

theorem scenario_entity_span_with_tail:
  "tag_text ''John Smith'' (lower ''PERSON'') (ds @ [s])
     = Inr (ds @ [s @ [(''John'', ''B-person''), (''Smith'', ''I-person'')]])
   \<and> tag_text '' works here'' [] (ds @ [s])
     = Inr (ds @ [s @ [(''works'', ''O''), (''here'', ''O'')]])
   \<and> xml2iob (Element ''ENAMEX'' [(''TYPE'', ''PERSON'')] (Some ''John Smith'') []
              (Some '' works here'')) (ds @ [s])
     = Inr (ds @ [s @ [(''John'', ''B-person''), (''Smith'', ''I-person''),
                       (''works'', ''O''), (''here'', ''O'')]])
   \<and> xml2iob (Element tag attrib None [] (Some t)) (ds @ [s])
     = Inr (ds @ (s @ line_pairs [] (hd (str_split NL t)))
               # map (line_pairs []) (tl (str_split NL t)))
   \<and> map snd (line_pairs [] line) = replicate (length (words_by (\<lambda>c. c = SP) line)) ''O''"
proof -
  have a: "tag_text ''John Smith'' (lower ''PERSON'') (ds @ [s])
     = Inr (ds @ [s @ [(''John'', ''B-person''), (''Smith'', ''I-person'')]])"
    by (simp add: lower_PERSON tag_text_snoc str_split_def split_by.simps(2) line_pairs_def words_by_def)
  have b: "tag_text '' works here'' [] (ds @ [s])
     = Inr (ds @ [s @ [(''works'', ''O''), (''here'', ''O'')]])" for ds s
    by (simp add: tag_text_snoc str_split_def split_by.simps(2) line_pairs_def words_by_def)
  have c: "xml2iob (Element ''ENAMEX'' [(''TYPE'', ''PERSON'')] (Some ''John Smith'') []
              (Some '' works here'')) (ds @ [s])
     = Inr (ds @ [s @ [(''John'', ''B-person''), (''Smith'', ''I-person''),
                       (''works'', ''O''), (''here'', ''O'')]])"
    using a b [of ds "s @ [(''John'', ''B-person''), (''Smith'', ''I-person'')]"]
    by (simp add: attrib_get_def)
  have d: "xml2iob (Element tag attrib None [] (Some t)) (ds @ [s])
     = Inr (ds @ (s @ line_pairs [] (hd (str_split NL t)))
               # map (line_pairs []) (tl (str_split NL t)))"
    by (cases "t = []") (simp_all add: tag_text_snoc str_split_def split_by.simps(2) line_pairs_def words_by_def)
  from a b c d line_pairs_outside show ?thesis by blast
qed

theorem scenario_entity_span_with_tail_witness:
  "xml2iob (Element ''ENAMEX'' [(''TYPE'', ''PERSON'')] (Some ''John Smith'') []
              (Some '' works here'')) [[]]
     = Inr [[(''John'', ''B-person''), (''Smith'', ''I-person''),
             (''works'', ''O''), (''here'', ''O'')]]"
  using scenario_entity_span_with_tail [of "[]" "[]"] by simp

text \<open>
  C7. The text \<open>Alice\<close>, newline, \<open>Bob\<close> outside any span gives the two sentences
  \<open>[(Alice, O)]\<close> and \<open>[(Bob, O)]\<close>. In general the loop over the lines pushes a new
  empty sentence after each line but the last, so a segment of \<open>k\<close> lines adds
  \<open>k - 1\<close> sentences: the tokens of the first line go to the open sentence and each
  later line has a sentence of its own.
\<close>

theorem newline_splits_sentences:
  "tag_text (''Alice'' @ [NL] @ ''Bob'') [] [[]]
     = Inr [[(''Alice'', ''O'')], [(''Bob'', ''O'')]]
   \<and> tag_lines i nlines (line # ls) tag_type (ds @ [s])
     = tag_lines (Suc i) nlines ls tag_type
         (if int i < int nlines - 1 then ds @ [s @ line_pairs tag_type line, []]
          else ds @ [s @ line_pairs tag_type line])
   \<and> tag_text seg tag_type (ds @ [s])
     = Inr (ds @ (s @ line_pairs tag_type (hd (str_split NL seg)))
               # map (line_pairs tag_type) (tl (str_split NL seg)))
   \<and> length (ds @ (s @ line_pairs tag_type (hd (str_split NL seg)))
               # map (line_pairs tag_type) (tl (str_split NL seg)))
     = length (ds @ [s]) + length (filter (\<lambda>c. c = NL) seg)"
proof -
  have a: "tag_text (''Alice'' @ [NL] @ ''Bob'') [] [[]]
     = Inr [[(''Alice'', ''O'')], [(''Bob'', ''O'')]]"
    by (simp add: linearizer_eval)
  have b: "tag_lines i nlines (line # ls) tag_type (ds @ [s])
     = tag_lines (Suc i) nlines ls tag_type
         (if int i < int nlines - 1 then ds @ [s @ line_pairs tag_type line, []]
          else ds @ [s @ line_pairs tag_type line])"
    by (simp add: tag_line_snoc append_empty_def)
  have len: "length (split_by P xs) = Suc (length (filter P xs))" for P and xs :: "char list"
    by (induction xs) (simp_all add: split_by_Cons split_by_nonempty)
  have c: "length (ds @ (s @ line_pairs tag_type (hd (str_split NL seg)))
               # map (line_pairs tag_type) (tl (str_split NL seg)))
     = length (ds @ [s]) + length (filter (\<lambda>c. c = NL) seg)"
    by (simp add: str_split_def split_by.simps(2) len)
  from a b c tag_text_snoc show ?thesis by blast
qed

theorem newline_splits_sentences_witness:
  "tag_text [CHR ''a'', NL, NL, CHR ''b''] [] ([[(''x'', ''O'')]] @ [[(''y'', ''O'')]])
     = Inr [[(''x'', ''O'')], [(''y'', ''O''), (''a'', ''O'')], [], [(''b'', ''O'')]]"
  using newline_splits_sentences [where ds = "[[(''x'', ''O'')]]" and s = "[(''y'', ''O'')]"
      and seg = "[CHR ''a'', NL, NL, CHR ''b'']" and tag_type = "[]"]
  by (simp add: str_split_def split_by.simps(2) line_pairs_def words_by_def)

text \<open>
  C9. If any node of a document is an entity span that has text but no \<open>TYPE\<close>
  attribute, the traversal of the document raises KeyError for that key and returns no
  sentence list, and so does \<open>parse_iob_files\<close> when it comes to that document: no
  default type is used.
\<close>

theorem malformed_entity_is_fatal:
  assumes "m \<in> set (nodes et_root)" and "malformed_entity m"
  shows "xml2iob et_root [[]] = Inl (KeyError ''TYPE'')
         \<and> (\<forall>data. data \<noteq> [] \<longrightarrow> xml2iob et_root data = Inl (KeyError ''TYPE''))
         \<and> (fromstring raw_data = Inr et_root \<longrightarrow>
              parse_iob_files_loop fromstring ((filename, raw_data) # rest) iob_data
                = Inl (KeyError ''TYPE''))"
proof -
  from assms have bad: "\<exists>m\<in>set (nodes et_root). malformed_entity m" by blast
  have gen: "xml2iob et_root data = Inl (KeyError ''TYPE'')" if "data \<noteq> []" for data
    using xml2iob_outcome(1) [of data et_root] that bad by simp
  then have one: "xml2iob et_root [[]] = Inl (KeyError ''TYPE'')" by simp
  have "parse_iob_files_loop fromstring ((filename, raw_data) # rest) iob_data
                = Inl (KeyError ''TYPE'')" if "fromstring raw_data = Inr et_root"
    using that one by simp
  with gen one show ?thesis by blast
qed

theorem malformed_entity_is_fatal_witness:
  "Element ''ENAMEX'' [(''KIND'', ''PERSON'')] (Some ''John'') [] None
     \<in> set (nodes (Element ''DOC'' [] (Some ''Hello'')
                     [Element ''ENAMEX'' [(''KIND'', ''PERSON'')] (Some ''John'') [] None] None))
   \<and> malformed_entity (Element ''ENAMEX'' [(''KIND'', ''PERSON'')] (Some ''John'') [] None)
   \<and> xml2iob (Element ''DOC'' [] (Some ''Hello'')
                     [Element ''ENAMEX'' [(''KIND'', ''PERSON'')] (Some ''John'') [] None] None) [[]]
       = Inl (KeyError ''TYPE'')
   \<and> parse_iob_files (\<lambda>raw. Inr (Element ''DOC'' [] (Some ''Hello'')
                     [Element ''ENAMEX'' [(''KIND'', ''PERSON'')] (Some ''John'') [] None] None))
        [(''a.name'', ''<DOC>'')]
       = Inl (KeyError ''TYPE'')"
proof -
  let ?m = "Element ''ENAMEX'' [(''KIND'', ''PERSON'')] (Some ''John'') [] None"
  let ?r = "Element ''DOC'' [] (Some ''Hello'') [?m] None"
  have h1: "?m \<in> set (nodes ?r)" by simp
  have h2: "malformed_entity ?m" by simp
  from malformed_entity_is_fatal [OF h1 h2, of "\<lambda>raw. Inr ?r" "''<DOC>''" "''a.name''" "[]" "[]"]
  have "xml2iob ?r [[]] = Inl (KeyError ''TYPE'')"
    and "parse_iob_files (\<lambda>raw. Inr ?r) [(''a.name'', ''<DOC>'')] = Inl (KeyError ''TYPE'')"
    by (simp_all add: parse_iob_files_def)
  with h1 h2 show ?thesis by blast
qed

text \<open>
  C4. When a document has been parsed and linearized, \<open>parse_iob_files\<close> raises the
  RuntimeError that carries both counts and the file name if and only if the number of
  non-empty sentences differs from the number of non-empty lines of the raw text less 2
  (a line counts when it is not empty once stripped); otherwise it goes on to the next
  file with the sentences of this one appended.
\<close>

theorem sentence_count_check:
  assumes "fromstring raw_data = Inr et_root"
    and "xml2iob et_root [[]] = Inr local_iob_data"
  shows "parse_iob_files_loop fromstring ((filename, raw_data) # rest) iob_data
           = (if sentence_count local_iob_data \<noteq> raw_sentence_count raw_data
              then Inl (RuntimeError (sentence_count local_iob_data)
                          (raw_sentence_count raw_data) filename)
              else parse_iob_files_loop fromstring rest
                     (iob_data @ filter (\<lambda>sent. sent \<noteq> []) local_iob_data))
         \<and> ((\<exists>e. parse_iob_files fromstring [(filename, raw_data)] = Inl e)
              \<longleftrightarrow> sentence_count local_iob_data \<noteq> raw_sentence_count raw_data)"
  using assms
  by (simp add: parse_iob_files_def sentence_count_def raw_sentence_count_def Let_def)

theorem sentence_count_check_witness:
  "xml2iob (Element ''DOC'' [] (Some ([NL] @ ''a'' @ [NL] @ ''b'' @ [NL] @ ''c'' @ [NL])) [] None) [[]]
     = Inr [[], [(''a'', ''O'')], [(''b'', ''O'')], [(''c'', ''O'')], []]
   \<and> raw_sentence_count (''<DOC>'' @ [NL] @ ''a'' @ [NL] @ ''b'' @ [NL] @ ''c'' @ [NL] @ ''</DOC>'' @ [NL]) = 3
   \<and> parse_iob_files
        (\<lambda>raw. Inr (Element ''DOC'' [] (Some ([NL] @ ''a'' @ [NL] @ ''b'' @ [NL] @ ''c'' @ [NL])) [] None))
        [(''a.name'', ''<DOC>'' @ [NL] @ ''a'' @ [NL] @ ''b'' @ [NL] @ ''c'' @ [NL] @ ''</DOC>'' @ [NL])]
       = Inr [[(''a'', ''O'')], [(''b'', ''O'')], [(''c'', ''O'')]]
   \<and> xml2iob (Element ''DOC'' [] (Some (''a'' @ [NL] @ ''b'' @ [NL] @ ''c'' @ [NL] @ ''d'' @ [NL])) [] None) [[]]
     = Inr [[(''a'', ''O'')], [(''b'', ''O'')], [(''c'', ''O'')], [(''d'', ''O'')], []]
   \<and> raw_sentence_count (''<DOC>a'' @ [NL] @ ''b'' @ [NL] @ ''c'' @ [NL] @ ''d'' @ [NL] @ ''</DOC>'' @ [NL]) = 3
   \<and> parse_iob_files
        (\<lambda>raw. Inr (Element ''DOC'' [] (Some (''a'' @ [NL] @ ''b'' @ [NL] @ ''c'' @ [NL] @ ''d'' @ [NL])) [] None))
        [(''b.name'', ''<DOC>a'' @ [NL] @ ''b'' @ [NL] @ ''c'' @ [NL] @ ''d'' @ [NL] @ ''</DOC>'' @ [NL])]
       = Inl (RuntimeError 4 3 ''b.name'')"
proof -
  let ?ta = "Element ''DOC'' [] (Some ([NL] @ ''a'' @ [NL] @ ''b'' @ [NL] @ ''c'' @ [NL])) [] None"
  let ?ra = "''<DOC>'' @ [NL] @ ''a'' @ [NL] @ ''b'' @ [NL] @ ''c'' @ [NL] @ ''</DOC>'' @ [NL]"
  let ?tb = "Element ''DOC'' [] (Some (''a'' @ [NL] @ ''b'' @ [NL] @ ''c'' @ [NL] @ ''d'' @ [NL])) [] None"
  let ?rb = "''<DOC>a'' @ [NL] @ ''b'' @ [NL] @ ''c'' @ [NL] @ ''d'' @ [NL] @ ''</DOC>'' @ [NL]"
  have xa: "xml2iob ?ta [[]] = Inr [[], [(''a'', ''O'')], [(''b'', ''O'')], [(''c'', ''O'')], []]"
    by (simp add: linearizer_eval)
  have xb: "xml2iob ?tb [[]]
      = Inr [[(''a'', ''O'')], [(''b'', ''O'')], [(''c'', ''O'')], [(''d'', ''O'')], []]"
    by (simp add: linearizer_eval)
  have ca: "raw_sentence_count ?ra = 3"
    by (simp add: raw_sentence_count_def str_split_def split_by.simps(2) str_strip_ws_def strip_by_def isspace_def)
  have cb: "raw_sentence_count ?rb = 3"
    by (simp add: raw_sentence_count_def str_split_def split_by.simps(2) str_strip_ws_def strip_by_def isspace_def)
  from sentence_count_check [where fromstring = "\<lambda>raw. Inr ?ta" and raw_data = ?ra
      and et_root = ?ta and filename = "''a.name''" and rest = "[]" and iob_data = "[]", OF _ xa] ca
  have ra: "parse_iob_files (\<lambda>raw. Inr ?ta) [(''a.name'', ?ra)]
      = Inr [[(''a'', ''O'')], [(''b'', ''O'')], [(''c'', ''O'')]]"
    by (simp add: parse_iob_files_def sentence_count_def)
  from sentence_count_check [where fromstring = "\<lambda>raw. Inr ?tb" and raw_data = ?rb
      and et_root = ?tb and filename = "''b.name''" and rest = "[]" and iob_data = "[]", OF _ xb] cb
  have rb: "parse_iob_files (\<lambda>raw. Inr ?tb) [(''b.name'', ?rb)] = Inl (RuntimeError 4 3 ''b.name'')"
    by (simp add: parse_iob_files_def sentence_count_def)
  from xa ca ra xb cb rb show ?thesis by blast
qed

section \<open>Writing and reading back\<close>

lemma split_by_append_sep:
  "(\<And>c. c \<in> set l \<Longrightarrow> \<not> P c) \<Longrightarrow> P x \<Longrightarrow> split_by P (l @ x # r) = l # split_by P r"
  by (induction l) (auto simp: split_by_Cons)

lemma iob_lines_Cons:
  "rest \<noteq> [] \<Longrightarrow> iob_lines (sent # rest) = map join_pair sent @ [] # iob_lines rest"
  by (cases rest) simp_all

lemma unlines_append: "unlines (xs @ ys) = unlines xs @ unlines ys"
  by (simp add: unlines_def)

lemma write_loop_eq:
  "(\<And>sent. sent \<in> set data \<Longrightarrow> sent \<noteq> []) \<Longrightarrow> i + length data = nsent \<Longrightarrow>
   write_loop i nsent data fh = Inr (fh @ unlines (iob_lines data))"
proof (induction data arbitrary: i fh)
  case Nil
  show ?case by (simp add: unlines_def)
next
  case (Cons sent rest)
  have ne: "sent \<noteq> []" using Cons.prems(1) by simp
  have body: "concat (map (\<lambda>token_tag. join_pair token_tag @ [NL]) sent)
      = unlines (map join_pair sent)"
    by (simp add: unlines_def comp_def)
  show ?case
  proof (cases "rest = []")
    case True
    with Cons.prems(2) ne body show ?thesis by simp
  next
    case False
    with Cons.prems(2) have lt: "int i < int nsent - 1" by (cases rest) auto
    have "write_loop (Suc i) nsent rest (fh @ unlines (map join_pair sent) @ [NL])
        = Inr ((fh @ unlines (map join_pair sent) @ [NL]) @ unlines (iob_lines rest))"
      using Cons.prems by (intro Cons.IH) auto
    with ne lt body False show ?thesis
      by (simp add: iob_lines_Cons unlines_append unlines_def)
  qed
qed

lemma str_split_unlines:
  "(\<And>l. l \<in> set ls \<Longrightarrow> NL \<notin> set l) \<Longrightarrow> str_split NL (unlines ls) = ls @ [[]]"
proof (induction ls)
  case Nil
  show ?case by (simp add: unlines_def str_split_def split_by.simps(2))
next
  case (Cons l ls)
  have IH: "str_split NL (unlines ls) = ls @ [[]]"
    using Cons.prems by (intro Cons.IH) auto
  have "split_by (\<lambda>c. c = NL) (l @ NL # unlines ls) = l # split_by (\<lambda>c. c = NL) (unlines ls)"
    using Cons.prems by (intro split_by_append_sep) auto
  with IH show ?case by (simp add: unlines_def str_split_def split_by.simps(2))
qed

lemma text_lines_unlines:
  "(\<And>l. l \<in> set ls \<Longrightarrow> NL \<notin> set l) \<Longrightarrow> text_lines (unlines ls) = ls"
  by (simp add: text_lines_def str_split_unlines)

lemma join_pair_nonempty: "join_pair p \<noteq> []"
  by (simp add: join_pair_def)

lemma split_blank_iob_lines:
  "data \<noteq> [] \<Longrightarrow> split_by (\<lambda>line. line = []) (iob_lines data) = map (map join_pair) data"
proof (induction data)
  case Nil
  then show ?case by simp
next
  case (Cons sent rest)
  show ?case
  proof (cases "rest = []")
    case True
    have "split_by (\<lambda>line. line = []) (map join_pair sent) = [map join_pair sent]"
      by (intro split_by_no_sep) (auto simp: join_pair_nonempty)
    with True show ?thesis by simp
  next
    case False
    have "split_by (\<lambda>line. line = []) (map join_pair sent @ [] # iob_lines rest)
        = map join_pair sent # split_by (\<lambda>line. line = []) (iob_lines rest)"
      by (intro split_by_append_sep) (auto simp: join_pair_nonempty)
    with False Cons.IH show ?thesis by (simp add: iob_lines_Cons)
  qed
qed

lemma take_drop_first_space:
  "SP \<notin> set w \<Longrightarrow>
   takeWhile (\<lambda>c. c \<noteq> SP) (w @ SP # t) = w \<and> dropWhile (\<lambda>c. c \<noteq> SP) (w @ SP # t) = SP # t"
  by (induction w) auto

lemma split_first_space_join_pair:
  "SP \<notin> set (fst p) \<Longrightarrow> split_first_space (join_pair p) = p"
  using take_drop_first_space [of "fst p" "snd p"]
  by (simp add: split_first_space_def join_pair_def)

lemma iob_lines_set:
  "l \<in> set (iob_lines data) \<Longrightarrow> l = [] \<or> (\<exists>sent\<in>set data. \<exists>p\<in>set sent. l = join_pair p)"
  by (induction data rule: iob_lines.induct) auto

text \<open>
  C8. For every non-empty list of non-empty sentences whose words hold no space and no
  newline and whose tags hold no newline (so also when the tags hold no space either),
  \<open>write_iob\<close> writes one pair to a line with a single space between word and tag, one
  blank line between two sentences and none after the last, and reading the text back
  gives the list again.
\<close>

theorem write_iob_round_trip:
  assumes "data \<noteq> []"
    and "\<forall>sent\<in>set data. sent \<noteq> []
           \<and> (\<forall>p\<in>set sent. SP \<notin> set (fst p) \<and> NL \<notin> set (fst p) \<and> NL \<notin> set (snd p))"
  shows "write_iob data = Inr (unlines (iob_lines data))
         \<and> reparse_iob (unlines (iob_lines data)) = data"
proof -
  have w: "write_iob data = Inr (unlines (iob_lines data))"
    unfolding write_iob_def using assms(2) write_loop_eq [of data 0 "length data" "[]"]
    by simp
  have nl: "NL \<notin> set l" if "l \<in> set (iob_lines data)" for l
  proof (cases "l = []")
    case True
    then show ?thesis by simp
  next
    case False
    with iob_lines_set [OF that] obtain sent p
      where "sent \<in> set data" and "p \<in> set sent" and l: "l = join_pair p"
      by blast
    with assms(2) have "NL \<notin> set (fst p)" and "NL \<notin> set (snd p)" by blast+
    then show ?thesis by (simp add: l join_pair_def)
  qed
  have "map (map split_first_space) (map (map join_pair) data) = data"
  proof -
    have "map split_first_space (map join_pair sent) = sent" if "sent \<in> set data" for sent
    proof -
      have "split_first_space (join_pair p) = p" if "p \<in> set sent" for p
        using assms(2) \<open>sent \<in> set data\<close> that by (intro split_first_space_join_pair) blast
      then show ?thesis by (simp add: map_idI)
    qed
    then show ?thesis by (simp add: map_idI)
  qed
  then have "reparse_iob (unlines (iob_lines data)) = data"
    unfolding reparse_iob_def using nl split_blank_iob_lines [OF assms(1)]
    by (simp add: text_lines_unlines)
  with w show ?thesis by blast
qed

theorem write_iob_round_trip_witness:
  "[[(''a'', ''O''), (''b'', ''B-x'')], [(''c'', ''O'')]] \<noteq> ([] :: iob)
   \<and> write_iob [[(''a'', ''O''), (''b'', ''B-x'')], [(''c'', ''O'')]]
       = Inr (''a O'' @ [NL] @ ''b B-x'' @ [NL] @ [NL] @ ''c O'' @ [NL])
   \<and> reparse_iob (''a O'' @ [NL] @ ''b B-x'' @ [NL] @ [NL] @ ''c O'' @ [NL])
       = [[(''a'', ''O''), (''b'', ''B-x'')], [(''c'', ''O'')]]"
proof -
  let ?d = "[[(''a'', ''O''), (''b'', ''B-x'')], [(''c'', ''O'')]] :: iob"
  have h1: "?d \<noteq> []" by simp
  have h2: "\<forall>sent\<in>set ?d. sent \<noteq> []
           \<and> (\<forall>p\<in>set sent. SP \<notin> set (fst p) \<and> NL \<notin> set (fst p) \<and> NL \<notin> set (snd p))"
    by simp
  have u: "unlines (iob_lines ?d) = ''a O'' @ [NL] @ ''b B-x'' @ [NL] @ [NL] @ ''c O'' @ [NL]"
    by (simp add: unlines_def join_pair_def)
  from write_iob_round_trip [OF h1 h2] h1 show ?thesis unfolding u by blast
qed

section \<open>The random partitions\<close>

lemma length_shuffle_loop: "length (fst (shuffle_loop randbelow k g x)) = length x"
  by (induction k arbitrary: g x) (simp_all add: Let_def split: prod.splits)

lemma mset_shuffle_loop:
  "k < length x \<Longrightarrow> mset (fst (shuffle_loop randbelow k g x)) = mset x"
proof (induction k arbitrary: g x)
  case 0
  show ?case by simp
next
  case (Suc k)
  obtain r g' where r: "randbelow g (Suc k + 1) = (r, g')" by (cases "randbelow g (Suc k + 1)")
  let ?j = "r mod (Suc k + 1)"
  let ?x = "x[Suc k := x ! ?j, ?j := x ! Suc k]"
  have "?j < Suc k + 1" by simp
  with Suc.prems have j: "?j < length x" by linarith
  have "mset ?x = mset x"
    using Suc.prems j by (simp add: mset_swap)
  moreover have "mset (fst (shuffle_loop randbelow k g' ?x)) = mset ?x"
    using Suc.prems by (intro Suc.IH) simp
  ultimately show ?case using r by (simp add: Let_def)
qed

lemma shuffle_cells:
  "cells (fst (shuffle randbelow g st a)) b
     = (if b = a then fst (shuffle_loop randbelow (length (cells st a) - 1) g (cells st a))
        else cells st b)"
  by (simp add: shuffle_def Let_def split: prod.splits)

lemma deepcopy_cells:
  "cells (fst (deepcopy st a)) b = (if b = next_free st then cells st a else cells st b)"
  "snd (deepcopy st a) = next_free st"
  by (simp_all add: deepcopy_def)

lemma build_random_partitions_store:
  "cells (fst (build_random_partitions Random randbelow st a valid_frac test_frac seed)) b
     = (if b = next_free st
        then fst (shuffle_loop randbelow (length (cells st a) - 1) (Random seed) (cells st a))
        else cells st b)"
  by (simp add: build_random_partitions_def Let_def deepcopy_def shuffle_def split: prod.splits)

lemma py_int_default: "py_int ((7 / 100) * of_int (int n)) = int (7 * n div 100)"
proof -
  have "(7 / 100 :: rat) * of_int (int n) = of_int (int (7 * n)) / of_int 100" by simp
  then have "\<lfloor>(7 / 100 :: rat) * of_int (int n)\<rfloor> = int (7 * n) div 100"
    by (simp only: floor_divide_of_int_eq)
  then show ?thesis by (simp add: py_int_def zdiv_int)
qed

lemma build_random_partitions_default_result:
  "snd (build_random_partitions_default Random randbelow st a)
     = (let xs = fst (shuffle_loop randbelow (length (cells st a) - 1) (Random 42) (cells st a));
            k = int (7 * length (cells st a) div 100)
        in (py_slice xs 0 k, py_slice xs k (k + k), py_slice xs (k + k) (int (length xs))))"
proof -
  obtain xs g' where sh:
    "shuffle_loop randbelow (length (cells st a) - 1) (Random 42) (cells st a) = (xs, g')"
    by (cases "shuffle_loop randbelow (length (cells st a) - 1) (Random 42) (cells st a)")
  from length_shuffle_loop [of randbelow "length (cells st a) - 1" "Random 42" "cells st a"] sh
  have len: "length xs = length (cells st a)" by simp
  show ?thesis
    unfolding build_random_partitions_default_def build_random_partitions_def
    using py_int_default [of "length (cells st a)"] sh len
    by (simp add: Let_def deepcopy_def shuffle_def)
qed

lemma build_random_partitions_default_lengths:
  "length (train_data (build_random_partitions_default Random randbelow st a))
     = 7 * length (cells st a) div 100"
  "length (valid_data (build_random_partitions_default Random randbelow st a))
     = 7 * length (cells st a) div 100"
  "length (test_data (build_random_partitions_default Random randbelow st a))
     = length (cells st a) - 2 * (7 * length (cells st a) div 100)"
proof -
  have b: "2 * (7 * length (cells st a) div 100) \<le> length (cells st a)" by simp
  show "length (train_data (build_random_partitions_default Random randbelow st a))
     = 7 * length (cells st a) div 100"
    using b
    by (simp add: train_data_def build_random_partitions_default_result Let_def py_slice_def
        slice_index_def length_shuffle_loop)
  show "length (valid_data (build_random_partitions_default Random randbelow st a))
     = 7 * length (cells st a) div 100"
    using b
    by (simp add: valid_data_def build_random_partitions_default_result Let_def py_slice_def
        slice_index_def length_shuffle_loop)
  show "length (test_data (build_random_partitions_default Random randbelow st a))
     = length (cells st a) - 2 * (7 * length (cells st a) div 100)"
    using b
    by (simp add: test_data_def build_random_partitions_default_result Let_def py_slice_def
        slice_index_def length_shuffle_loop)
qed

text \<open>
  C1. On a corpus of 100 sentences the call with the default fractions returns 7
  sentences under the name \<open>train_data\<close>, 7 under \<open>valid_data\<close> and the remaining 86
  under \<open>test_data\<close>, whatever the generator draws: the slice up to \<open>valid_end\<close> is
  bound to \<open>train_data\<close> and the rest to \<open>test_data\<close>. The claim gives the
  remainder to \<open>train_data\<close> and 7 sentences to \<open>test_data\<close>. The caller writes
  \<open>train_data\<close> to the validation file and \<open>test_data\<close> to the training file, so
  the files have the sizes their names promise.
\<close>

theorem default_partitions_of_100_sentences:
  "length (train_data (build_random_partitions_default Random randbelow
      \<lparr>cells = (\<lambda>a. replicate 100 [(''w'', ''O'')]), next_free = 1\<rparr> 0)) = 7
   \<and> length (valid_data (build_random_partitions_default Random randbelow
      \<lparr>cells = (\<lambda>a. replicate 100 [(''w'', ''O'')]), next_free = 1\<rparr> 0)) = 7
   \<and> length (test_data (build_random_partitions_default Random randbelow
      \<lparr>cells = (\<lambda>a. replicate 100 [(''w'', ''O'')]), next_free = 1\<rparr> 0)) = 86
   \<and> map (\<lambda>w. (fst w, length (snd w)))
        (main_partition_writes Random randbelow
           \<lparr>cells = (\<lambda>a. replicate 100 [(''w'', ''O'')]), next_free = 1\<rparr> 0
           ''train.txt'' ''valid.txt'' ''test.txt'')
     = [(''valid.txt'', 7), (''test.txt'', 7), (''train.txt'', 86)]"
  by (simp add: build_random_partitions_default_lengths main_partition_writes_def Let_def)

text \<open>
  C10. The call leaves every list object that existed before it as it was, the argument
  among them: the shuffle writes to the copy only, which is a new object. This holds for
  all fractions, seeds and generators.
\<close>

theorem build_random_partitions_leaves_argument:
  assumes "iob_data < next_free st"
  shows "cells (fst (build_random_partitions Random randbelow st iob_data valid_frac test_frac seed))
           iob_data = cells st iob_data
         \<and> (\<forall>b. b < next_free st \<longrightarrow>
               cells (fst (build_random_partitions Random randbelow st iob_data
                             valid_frac test_frac seed)) b = cells st b)"
  using assms by (simp add: build_random_partitions_store)

theorem build_random_partitions_leaves_argument_witness:
  "(0 :: nat) < next_free \<lparr>cells = (\<lambda>a. [[(''a'', ''O'')], [(''b'', ''O'')], [(''c'', ''O'')]]),
                           next_free = 1\<rparr>
   \<and> cells (fst (build_random_partitions (\<lambda>seed. seed) (\<lambda>g n. (0, g + 1))
        \<lparr>cells = (\<lambda>a. [[(''a'', ''O'')], [(''b'', ''O'')], [(''c'', ''O'')]]), next_free = 1\<rparr>
        0 (7 / 100) (7 / 100) 42)) 0
       = [[(''a'', ''O'')], [(''b'', ''O'')], [(''c'', ''O'')]]
   \<and> cells (fst (build_random_partitions (\<lambda>seed. seed) (\<lambda>g n. (0, g + 1))
        \<lparr>cells = (\<lambda>a. [[(''a'', ''O'')], [(''b'', ''O'')], [(''c'', ''O'')]]), next_free = 1\<rparr>
        0 (7 / 100) (7 / 100) 42)) 1
       = [[(''b'', ''O'')], [(''c'', ''O'')], [(''a'', ''O'')]]"
proof -
  let ?st = "\<lparr>cells = (\<lambda>a. [[(''a'', ''O'')], [(''b'', ''O'')], [(''c'', ''O'')]]),
              next_free = 1\<rparr>"
  have h: "(0 :: nat) < next_free ?st" by simp
  have c: "cells (fst (build_random_partitions (\<lambda>seed. seed) (\<lambda>g n. (0, g + 1)) ?st
        0 (7 / 100) (7 / 100) 42)) 1
       = [[(''b'', ''O'')], [(''c'', ''O'')], [(''a'', ''O'')]]"
    by (simp add: build_random_partitions_store numeral_2_eq_2)
  from build_random_partitions_leaves_argument [OF h, of "\<lambda>seed. seed" "\<lambda>g n. (0, g + 1)"
      "7 / 100" "7 / 100" 42] h c
  show ?thesis by simp
qed

end
